theory Spec2Isabelle
  imports Complex_Main "HOL-Library.Multiset"
begin

section \<open>Python values: errors, outcomes, floats\<close>

text \<open>
  The exceptions the modelled code can raise. A call that raises leaves behind every
  mutation it made before the raise, so an outcome carries the state in both cases.
\<close>

datatype py_error =
  ValueError | KeyError | IndexError | ZeroDivisionError | RuntimeError | IOError | TypeError
  | AttributeError

datatype 'a outcome = Done 'a | Raised py_error 'a

fun error_of :: "'a outcome \<Rightarrow> py_error option" where
  "error_of (Done s) = None"
| "error_of (Raised e s) = Some e"

fun state_of :: "'a outcome \<Rightarrow> 'a" where
  "state_of (Done s) = s"
| "state_of (Raised e s) = s"

fun then_do :: "'a outcome \<Rightarrow> ('a \<Rightarrow> 'a outcome) \<Rightarrow> 'a outcome" where
  "then_do (Done s) f = f s"
| "then_do (Raised e s) f = Raised e s"

text \<open>
  A Python/numpy float, as far as comparisons see it: a finite value (idealised as an
  exact rational; rounding is not modelled), the two infinities, or NaN. Every comparison
  with NaN is false, \<open>==\<close> included.
\<close>

datatype pyfloat = Fin rat | PInf | NInf | NaN

fun f_le :: "pyfloat \<Rightarrow> pyfloat \<Rightarrow> bool" where
  "f_le NaN y = False"
| "f_le x NaN = False"
| "f_le NInf y = True"
| "f_le x PInf = True"
| "f_le PInf y = False"
| "f_le x NInf = False"
| "f_le (Fin a) (Fin b) = (a \<le> b)"

fun f_gt :: "pyfloat \<Rightarrow> pyfloat \<Rightarrow> bool" where
  "f_gt NaN y = False"
| "f_gt x NaN = False"
| "f_gt x y = (\<not> f_le x y)"

fun f_eq :: "pyfloat \<Rightarrow> pyfloat \<Rightarrow> bool" where
  "f_eq NaN y = False"
| "f_eq x NaN = False"
| "f_eq x y = (x = y)"

definition f_ge :: "pyfloat \<Rightarrow> pyfloat \<Rightarrow> bool" where
  "f_ge x y = f_le y x"

definition count_nonzero :: "bool list \<Rightarrow> nat" where
  "count_nonzero bs = length (filter (\<lambda>b. b) bs)"

section \<open>Violation histograms\<close>

definition DEFAULT_HIST_BINS :: nat where
  "DEFAULT_HIST_BINS = 100"

definition DEFAULT_HIST_MAX :: rat where
  "DEFAULT_HIST_MAX = 1 / 10"

text \<open>
  \<open>numpy.histogram(a, bins=n, range=(lo, hi))\<close> for an integer number of equal-width
  bins, after numpy's documented behaviour: \<open>n < 1\<close> and \<open>hi < lo\<close> raise
  ValueError, a range of width zero is widened by one half on each side, values outside
  the closed range are dropped, every bin is half-open except the last, which includes
  its right edge. The edges are \<open>linspace(first, last, n + 1)\<close>. numpy's correction of the
  index within one ulp of an edge does nothing in exact arithmetic.
\<close>

definition linspace :: "rat \<Rightarrow> rat \<Rightarrow> nat \<Rightarrow> rat list" where
  "linspace first_edge last_edge n = map (\<lambda>i. first_edge + of_nat i * ((last_edge - first_edge) / of_nat n)) [0..<Suc n]"

fun bin_index :: "rat \<Rightarrow> rat \<Rightarrow> nat \<Rightarrow> pyfloat \<Rightarrow> nat" where
  "bin_index first_edge last_edge n (Fin x) =
     (let i = nat \<lfloor>(x - first_edge) * (of_nat n / (last_edge - first_edge))\<rfloor>
      in if i = n then i - 1 else i)"
| "bin_index first_edge last_edge n x = 0"

definition np_histogram :: "pyfloat list \<Rightarrow> nat \<Rightarrow> rat \<times> rat \<Rightarrow> py_error + (nat list \<times> rat list)" where
  "np_histogram a bins rng =
     (if bins < 1 then Inl ValueError
      else if snd rng < fst rng then Inl ValueError
      else
        let first_edge = (if fst rng = snd rng then fst rng - 1 / 2 else fst rng);
            last_edge = (if fst rng = snd rng then snd rng + 1 / 2 else snd rng);
            keep = filter (\<lambda>x. f_ge x (Fin first_edge) \<and> f_le x (Fin last_edge)) a;
            indices = map (bin_index first_edge last_edge bins) keep
        in Inr (map (\<lambda>j. count_list indices j) [0..<bins], linspace first_edge last_edge bins))"

text \<open>
  \<open>get_violation_histogram(v, nbins=DEFAULT_HIST_BINS, vmax=1)\<close>: the overflow count of
  the values above \<open>vmax\<close> is appended to the histogram of the values up to \<open>vmax\<close>,
  and infinity to its edges.
\<close>

definition get_violation_histogram ::
  "pyfloat list \<Rightarrow> nat \<Rightarrow> rat \<Rightarrow> py_error + (nat list \<times> pyfloat list)" where
  "get_violation_histogram v nbins vmax =
     (let over = count_nonzero (map (\<lambda>x. f_gt x (Fin vmax)) v);
          inner = filter (\<lambda>x. f_le x (Fin vmax)) v
      in case np_histogram inner nbins (0, vmax) of
           Inl e \<Rightarrow> Inl e
         | Inr (H, edges) \<Rightarrow> Inr (H @ [over], map Fin edges @ [PInf]))"

text \<open>The call of the task: both defaults, so 100 interior bins over the range from 0 to 1.\<close>

definition get_violation_histogram_default ::
  "pyfloat list \<Rightarrow> py_error + (nat list \<times> pyfloat list)" where
  "get_violation_histogram_default v = get_violation_histogram v DEFAULT_HIST_BINS 1"

section \<open>Files, configuration and the per-member task\<close>

text \<open>\<open>'%d' % n\<close> for a member id, and \<open>os.path.join\<close> on POSIX paths.\<close>

fun str_nat :: "nat \<Rightarrow> string" where
  "str_nat n = (if n < 10 then [''0123456789'' ! n]
                else str_nat (n div 10) @ [''0123456789'' ! (n mod 10)])"

declare str_nat.simps [simp del]

definition path_join :: "string \<Rightarrow> string \<Rightarrow> string" where
  "path_join d f =
     (if f \<noteq> [] \<and> hd f = CHR ''/'' then f
      else if d = [] \<or> last d = CHR ''/'' then d @ f
      else d @ ''/'' @ f)"

definition readyfile_of :: "string \<Rightarrow> string \<Rightarrow> nat \<Rightarrow> string" where
  "readyfile_of tmp_dir step_id struct_id =
     path_join tmp_dir (step_id @ ''.'' @ str_nat struct_id @ ''.ready'')"

definition hms_name :: "string \<Rightarrow> nat \<Rightarrow> string" where
  "hms_name tmp_dir struct_id = path_join tmp_dir (''mstep_'' @ str_nat struct_id @ ''.hms'')"

text \<open>The configuration entries the modelled code reads; \<open>None\<close> is an absent key.\<close>

record config =
  population_size :: nat
  structure_output :: string
  step_hash :: "string option"
  clean_restart :: "bool option"
  violation_tolerance :: "rat option"

definition cfg_get :: "'a option \<Rightarrow> 'a \<Rightarrow> 'a" where
  "cfg_get entry dflt = (case entry of None \<Rightarrow> dflt | Some v \<Rightarrow> v)"

text \<open>A Python dict with string keys, in insertion order; assignment to a present key
  replaces the value in place.\<close>

fun dict_set :: "'k \<Rightarrow> 'v \<Rightarrow> ('k \<times> 'v) list \<Rightarrow> ('k \<times> 'v) list" where
  "dict_set k v [] = [(k, v)]"
| "dict_set k v (p # ps) = (if fst p = k then (k, v) # ps else p # dict_set k v ps)"

text \<open>
  The violation statistics of one restraint, as the JSON record holds it; an absent key
  is \<open>None\<close>. Counts are JSON numbers, idealised as rationals.
\<close>

record cstat =
  histogram_counts :: "rat list option"
  histogram_edges :: "pyfloat list"
  c_n_violations :: "rat option"
  c_n_imposed :: "rat option"

type_synonym vstat = "(string \<times> cstat) list"

text \<open>
  What \<open>json.loads(hms['violation_stats'][()])\<close> meets: no such dataset (the lookup
  raises), a dataset that does not parse (\<open>json.loads\<close> raises), a parsed value that is
  not a dict (a list, a number, a string, null), or a parsed dict. An entry of a parsed
  dict is a record like those the task writes, or some other JSON value.
\<close>

datatype stats_entry = Record cstat | NotARecord

type_synonym loaded_stats = "(string \<times> stats_entry) list"

datatype stats_dataset = Absent | Unparseable | ParsedOther | Parsed loaded_stats

text \<open>The optimization info of the minimizer: its scalar entries and the \<open>thermo\<close>
  dict, when it has one.\<close>

record optinfo =
  oi_scalars :: "(string \<times> rat) list"
  oi_thermo :: "(string \<times> rat) list option"

record hms_file =
  coordinates :: "pyfloat list"
  violation_stats :: stats_dataset
  opt_info :: "(string \<times> rat) list option"
  opt_info_dict :: "optinfo option"

text \<open>The running summary of the aggregator (\<open>_summary_data\<close>) and the shared store.\<close>

record bucket =
  b_counts :: "rat list"
  b_n_violations :: rat
  b_n_imposed :: rat

record summary =
  s_n_imposed :: rat
  s_n_violations :: rat
  s_counts :: "rat list"
  s_edges :: "pyfloat list"
  by_n_imposed :: "rat list"
  by_n_violations :: "rat list"
  total_energies :: "rat list"
  pair_energies :: "rat list"
  bond_energies :: "rat list"
  thermo :: "(string \<times> rat list) list"
  byrestraint :: "(string \<times> bucket) list"

record hss_file =
  nstruct :: nat
  nbead :: nat
  struct_crd :: "pyfloat list list"
  violation :: rat
  summary_dataset :: "summary option"

text \<open>The world outside a process: completion markers, per-member result files and
  store files by path, and the driver's \<open>cfg['runtime']['violation_score']\<close>.\<close>

record world =
  markers :: "string set"
  results :: "string \<rightharpoonup> hms_file"
  stores :: "string \<rightharpoonup> hss_file"
  runtime_violation_score :: "rat option"

text \<open>
  The energy model and the minimizer are external. A run is what they leave behind for the
  task: the coordinates of the model, the monitored restraints with their forces, and the
  optimization info (\<open>None\<close> when it is not a dict).
\<close>

record force =
  rnum :: nat
  getViolationRatios :: "pyfloat list"
  getViolationRatio :: pyfloat

record restraint =
  repr :: string
  forces :: "force list"

record model_run =
  getCoordinates :: "pyfloat list"
  monitored_restraints :: "restraint list"
  run_optinfo :: "optinfo option"

definition restraint_ratios :: "restraint \<Rightarrow> pyfloat list" where
  "restraint_ratios r =
     concat (map (\<lambda>f. if rnum f > 1 then getViolationRatios f else [getViolationRatio f]) (forces r))"

definition vstat_entry :: "rat \<Rightarrow> restraint \<Rightarrow> py_error + (string \<times> cstat)" where
  "vstat_entry tol r =
     (let vs = restraint_ratios r;
          n_imposed = sum_list (map rnum (forces r))
      in case get_violation_histogram_default vs of
           Inl e \<Rightarrow> Inl e
         | Inr (H, edges) \<Rightarrow>
             Inr (repr r,
               \<lparr>histogram_counts = Some (map of_nat H), histogram_edges = edges,
                c_n_violations = Some (of_nat (count_nonzero (map (\<lambda>x. f_gt x (Fin tol)) vs))),
                c_n_imposed = Some (of_nat n_imposed)\<rparr>))"

fun make_vstat :: "rat \<Rightarrow> restraint list \<Rightarrow> vstat \<Rightarrow> py_error + vstat" where
  "make_vstat tol [] acc = Inr acc"
| "make_vstat tol (r # rs) acc =
     (case vstat_entry tol r of
        Inl e \<Rightarrow> Inl e
      | Inr (k, c) \<Rightarrow> make_vstat tol rs (dict_set k c acc))"

text \<open>\<open>np.all(a == b)\<close> on two coordinate arrays of one shape.\<close>

definition np_all_eq :: "pyfloat list \<Rightarrow> pyfloat list \<Rightarrow> bool" where
  "np_all_eq a b = list_all2 f_eq a b"

text \<open>
  \<open>ModelingStep.task\<close>. \<open>storage\<close> is the result-file layer (\<open>HmsFile\<close> of
  \<open>igm.utils\<close>, taken as a parameter): the coordinates the file holds once \<open>saveModel\<close> has written the
  given ones. The task reads them back from the file it wrote.
\<close>

definition task ::
  "nat \<Rightarrow> config \<Rightarrow> string \<Rightarrow> model_run \<Rightarrow> (pyfloat list \<Rightarrow> pyfloat list) \<Rightarrow> world \<Rightarrow> world outcome" where
  "task struct_id cfg tmp_dir run storage w =
     (let step_id = cfg_get (step_hash cfg) ''xxxx'';
          readyfile = readyfile_of tmp_dir step_id struct_id
      in if \<not> cfg_get (clean_restart cfg) False \<and> readyfile \<in> markers w then Done w
         else case stores w (structure_output cfg) of
           None \<Rightarrow> Raised IOError w
         | Some hss \<Rightarrow>
            (case step_hash cfg of
               None \<Rightarrow> Raised TypeError w
             | Some h \<Rightarrow>
                let tol = cfg_get (violation_tolerance cfg) (1 / 100);
                    ofname = hms_name tmp_dir struct_id;
                    saved = \<lparr>coordinates = storage (getCoordinates run), violation_stats = Absent,
                             opt_info = None, opt_info_dict = None\<rparr>
                in case make_vstat tol (monitored_restraints run) [] of
                     Inl e \<Rightarrow> Raised e (w\<lparr>results := (results w)(ofname \<mapsto> saved)\<rparr>)
                   | Inr vstat \<Rightarrow>
                      let hms = saved\<lparr>violation_stats := Parsed (map (\<lambda>kc. (fst kc, Record (snd kc))) vstat),
                                  opt_info := map_option oi_scalars (run_optinfo run),
                                  opt_info_dict := run_optinfo run\<rparr>;
                          w1 = w\<lparr>results := (results w)(ofname \<mapsto> hms)\<rparr>
                      in case results w1 ofname of
                           None \<Rightarrow> Raised IOError w1
                         | Some back \<Rightarrow>
                            if \<not> np_all_eq (coordinates back) (getCoordinates run)
                            then Raised RuntimeError w1
                            else Done (w1\<lparr>markers := insert readyfile (markers w1)\<rparr>)))"

text \<open>\<open>before_map\<close>: a clean restart removes the markers of all members before the
  poller starts.\<close>

definition argument_list :: "config \<Rightarrow> nat list" where
  "argument_list cfg = [0..<population_size cfg]"

definition before_map_cleanup :: "config \<Rightarrow> string \<Rightarrow> string \<Rightarrow> world \<Rightarrow> world" where
  "before_map_cleanup cfg tmp_dir uid w =
     (let readyfiles = map (readyfile_of tmp_dir uid) (argument_list cfg)
      in if cfg_get (clean_restart cfg) False
         then w\<lparr>markers := markers w - set readyfiles\<rparr>
         else w)"

section \<open>The statistics aggregator (poller callbacks)\<close>

text \<open>
  The state of the poller process: the store behind the handle \<open>_hss\<close>, whether the
  handle is open, whether the storage accepts writes (an I/O fault makes every write
  through the handle raise), and the running summary. The per-member arrays are float32
  in the source; rounding is not modelled.
\<close>

record poller =
  hss :: hss_file
  hss_open :: bool
  hss_writable :: bool
  summary_data :: summary

definition zeros :: "nat \<Rightarrow> rat list" where
  "zeros n = replicate n 0"

definition summary_edges :: "pyfloat list" where
  "summary_edges =
     map (\<lambda>i. Fin (of_nat i * (DEFAULT_HIST_MAX / of_nat DEFAULT_HIST_BINS))) [0..<DEFAULT_HIST_BINS]
     @ [Fin DEFAULT_HIST_MAX, PInf]"

definition setup_poller :: "config \<Rightarrow> bool \<Rightarrow> world \<Rightarrow> py_error + poller" where
  "setup_poller cfg writable w =
     (case stores w (structure_output cfg @ ''.T'') of
        None \<Rightarrow> Inl IOError
      | Some f \<Rightarrow>
          Inr \<lparr>hss = f, hss_open = True, hss_writable = writable,
               summary_data =
                 \<lparr>s_n_imposed = 0, s_n_violations = 0,
                  s_counts = zeros (DEFAULT_HIST_BINS + 1), s_edges = summary_edges,
                  by_n_imposed = zeros (population_size cfg),
                  by_n_violations = zeros (population_size cfg),
                  total_energies = zeros (population_size cfg),
                  pair_energies = zeros (population_size cfg),
                  bond_energies = zeros (population_size cfg),
                  thermo = [], byrestraint = []\<rparr>\<rparr>)"

text \<open>A write through the store handle: it raises on a closed handle and on an I/O fault.\<close>

definition store_write :: "(hss_file \<Rightarrow> py_error + hss_file) \<Rightarrow> poller \<Rightarrow> poller outcome" where
  "store_write f p =
     (if \<not> hss_open p then Raised ValueError p
      else if \<not> hss_writable p then Raised IOError p
      else case f (hss p) of Inl e \<Rightarrow> Raised e p | Inr h \<Rightarrow> Done (p\<lparr>hss := h\<rparr>))"

text \<open>\<open>_hss.set_struct_crd(i, crd)\<close>, a call into the store library: a member id outside
  the store raises IndexError.\<close>

definition set_struct_crd :: "nat \<Rightarrow> pyfloat list \<Rightarrow> poller \<Rightarrow> poller outcome" where
  "set_struct_crd i crd =
     store_write (\<lambda>h. if i < nstruct h \<and> i < length (struct_crd h)
                       then Inr (h\<lparr>struct_crd := (struct_crd h)[i := crd]\<rparr>)
                       else Inl IndexError)"

text \<open>\<open>a += b\<close> on a numpy array \<open>a\<close>: elementwise for equal lengths, a single
  element is broadcast, any other shape raises ValueError.\<close>

definition np_iadd :: "rat list \<Rightarrow> rat list \<Rightarrow> py_error + rat list" where
  "np_iadd a b =
     (if length b = length a then Inr (map2 (+) a b)
      else if length b = 1 then Inr (map (\<lambda>x. x + hd b) a)
      else Inl ValueError)"

text \<open>\<open>a[i] = v\<close> on an array, for a member id \<open>i\<close>.\<close>

definition set_item :: "rat list \<Rightarrow> nat \<Rightarrow> rat \<Rightarrow> py_error + rat list" where
  "set_item a i v = (if i < length a then Inr (a[i := v]) else Inl IndexError)"

text \<open>The loop over the restraints of one member: its local totals and the per-restraint
  buckets it updates as it goes.\<close>

record stat_loop =
  n_tot :: rat
  n_vio :: rat
  hist_tot :: "rat list"
  buckets :: "(string \<times> bucket) list"

definition ensure_bucket :: "string \<Rightarrow> (string \<times> bucket) list \<Rightarrow> (string \<times> bucket) list" where
  "ensure_bucket k bs =
     (if map_of bs k = None
      then dict_set k \<lparr>b_counts = zeros (DEFAULT_HIST_BINS + 1),
                       b_n_violations = 0, b_n_imposed = 0\<rparr> bs
      else bs)"

definition stat_step :: "string \<times> cstat \<Rightarrow> stat_loop \<Rightarrow> stat_loop outcome" where
  "stat_step kc l =
     (let k = fst kc; c = snd kc;
          bs = ensure_bucket k (buckets l);
          l1 = l\<lparr>buckets := bs, n_tot := n_tot l + cfg_get (c_n_imposed c) 0,
                 n_vio := n_vio l + cfg_get (c_n_violations c) 0\<rparr>
      in case histogram_counts c of
           None \<Rightarrow> Raised KeyError l1
         | Some cs \<Rightarrow>
            (case np_iadd (hist_tot l1) cs of
               Inl e \<Rightarrow> Raised e l1
             | Inr h \<Rightarrow>
                (case map_of bs k of
                   None \<Rightarrow> Raised KeyError (l1\<lparr>hist_tot := h\<rparr>)
                 | Some b \<Rightarrow>
                    let b1 = b\<lparr>b_n_violations := b_n_violations b + cfg_get (c_n_violations c) 0,
                               b_n_imposed := b_n_imposed b + cfg_get (c_n_imposed c) 0\<rparr>
                    in case np_iadd (b_counts b1) cs of
                         Inl e \<Rightarrow> Raised e (l1\<lparr>hist_tot := h, buckets := dict_set k b1 bs\<rparr>)
                       | Inr bc \<Rightarrow>
                           Done (l1\<lparr>hist_tot := h,
                                    buckets := dict_set k (b1\<lparr>b_counts := bc\<rparr>) bs\<rparr>))))"

text \<open>One pass of the loop body: the bucket is created first, then \<open>cstat.get\<close> needs
  the entry to be a dict (AttributeError otherwise).\<close>

definition stat_entry_step :: "string \<times> stats_entry \<Rightarrow> stat_loop \<Rightarrow> stat_loop outcome" where
  "stat_entry_step ke l =
     (case snd ke of
        Record c \<Rightarrow> stat_step (fst ke, c) l
      | NotARecord \<Rightarrow> Raised AttributeError (l\<lparr>buckets := ensure_bucket (fst ke) (buckets l)\<rparr>))"

fun stat_items :: "loaded_stats \<Rightarrow> stat_loop \<Rightarrow> stat_loop outcome" where
  "stat_items [] l = Done l"
| "stat_items (ke # rest) l =
     (case stat_entry_step ke l of
        Done l' \<Rightarrow> stat_items rest l'
      | Raised e l' \<Rightarrow> Raised e l')"

text \<open>
  The \<open>try\<close> around \<open>json.loads\<close>: a missing dataset and a parse error both give the
  empty dict. A parsed value is taken as it is; \<open>None\<close> stands for a value that has no
  \<open>items()\<close>.
\<close>

definition loaded_vstat :: "stats_dataset \<Rightarrow> loaded_stats option" where
  "loaded_vstat d =
     (case d of
        Parsed v \<Rightarrow> Some v
      | ParsedOther \<Rightarrow> None
      | Absent \<Rightarrow> Some []
      | Unparseable \<Rightarrow> Some [])"

definition collect_violation_stats :: "nat \<Rightarrow> loaded_stats \<Rightarrow> summary \<Rightarrow> summary outcome" where
  "collect_violation_stats i vstat sd =
     (case stat_items vstat \<lparr>n_tot = 0, n_vio = 0, hist_tot = zeros (DEFAULT_HIST_BINS + 1),
                              buckets = byrestraint sd\<rparr> of
        Raised e l \<Rightarrow> Raised e (sd\<lparr>byrestraint := buckets l\<rparr>)
      | Done l \<Rightarrow>
         let sd1 = sd\<lparr>byrestraint := buckets l,
                      s_n_imposed := s_n_imposed sd + n_tot l,
                      s_n_violations := s_n_violations sd + n_vio l\<rparr>
         in case np_iadd (s_counts sd1) (hist_tot l) of
              Inl e \<Rightarrow> Raised e sd1
            | Inr h \<Rightarrow>
               (case set_item (by_n_imposed sd1) i (n_tot l) of
                  Inl e \<Rightarrow> Raised e (sd1\<lparr>s_counts := h\<rparr>)
                | Inr a \<Rightarrow>
                   (case set_item (by_n_violations sd1) i (n_vio l) of
                      Inl e \<Rightarrow> Raised e (sd1\<lparr>s_counts := h, by_n_imposed := a\<rparr>)
                    | Inr b \<Rightarrow> Done (sd1\<lparr>s_counts := h, by_n_imposed := a, by_n_violations := b\<rparr>))))"

definition collect_loaded :: "nat \<Rightarrow> stats_dataset \<Rightarrow> summary \<Rightarrow> summary outcome" where
  "collect_loaded i d sd =
     (case loaded_vstat d of
        None \<Rightarrow> Raised AttributeError sd
      | Some vstat \<Rightarrow> collect_violation_stats i vstat sd)"

text \<open>The energies: a missing group or field (a KeyError) ends the block silently, with
  the fields before it already recorded.\<close>

definition collect_energies :: "nat \<Rightarrow> hms_file \<Rightarrow> summary \<Rightarrow> summary outcome" where
  "collect_energies i hms sd =
     (case opt_info hms of
        None \<Rightarrow> Done sd
      | Some g \<Rightarrow>
         (case map_of g ''final-energy'' of
            None \<Rightarrow> Done sd
          | Some ft \<Rightarrow>
             (case set_item (total_energies sd) i ft of
                Inl e \<Rightarrow> Raised e sd
              | Inr t \<Rightarrow>
                 let sd1 = sd\<lparr>total_energies := t\<rparr>
                 in case map_of g ''pair-energy'' of
                      None \<Rightarrow> Done sd1
                    | Some fp \<Rightarrow>
                       (case set_item (pair_energies sd1) i fp of
                          Inl e \<Rightarrow> Raised e sd1
                        | Inr pe \<Rightarrow>
                           let sd2 = sd1\<lparr>pair_energies := pe\<rparr>
                           in case map_of g ''bond-energy'' of
                                None \<Rightarrow> Done sd2
                              | Some fb \<Rightarrow>
                                 (case set_item (bond_energies sd2) i fb of
                                    Inl e \<Rightarrow> Raised e sd2
                                  | Inr be \<Rightarrow> Done (sd2\<lparr>bond_energies := be\<rparr>))))))"

fun thermo_items :: "nat \<Rightarrow> nat \<Rightarrow> (string \<times> rat) list \<Rightarrow> (string \<times> rat list) list
    \<Rightarrow> (string \<times> rat list) list outcome" where
  "thermo_items i n [] th = Done th"
| "thermo_items i n (kv # rest) th =
     (let th1 = (if map_of th (fst kv) = None then dict_set (fst kv) (zeros n) th else th)
      in case map_of th1 (fst kv) of
           None \<Rightarrow> Raised KeyError th1
         | Some arr \<Rightarrow>
            (case set_item arr i (snd kv) of
               Inl e \<Rightarrow> Raised e th1
             | Inr arr' \<Rightarrow> thermo_items i n rest (dict_set (fst kv) arr' th1)))"

definition collect_thermo :: "nat \<Rightarrow> nat \<Rightarrow> hms_file \<Rightarrow> summary \<Rightarrow> summary outcome" where
  "collect_thermo i n hms sd =
     (case opt_info_dict hms of
        None \<Rightarrow> Done sd
      | Some infodict \<Rightarrow>
         (case oi_thermo infodict of
            None \<Rightarrow> Raised KeyError sd
          | Some items \<Rightarrow>
             (case thermo_items i n items (thermo sd) of
                Done th \<Rightarrow> Done (sd\<lparr>thermo := th\<rparr>)
              | Raised e th \<Rightarrow> Raised e (sd\<lparr>thermo := th\<rparr>))))"

definition on_summary :: "(summary \<Rightarrow> summary outcome) \<Rightarrow> poller \<Rightarrow> poller outcome" where
  "on_summary f p =
     (case f (summary_data p) of
        Done sd \<Rightarrow> Done (p\<lparr>summary_data := sd\<rparr>)
      | Raised e sd \<Rightarrow> Raised e (p\<lparr>summary_data := sd\<rparr>))"

text \<open>\<open>ModelingStep.set_structure\<close>, the callback of the poller for member \<open>i\<close>.\<close>

definition set_structure :: "string \<Rightarrow> world \<Rightarrow> nat \<Rightarrow> poller \<Rightarrow> poller outcome" where
  "set_structure tmp_dir w i p =
     (case results w (hms_name tmp_dir i) of
        None \<Rightarrow> Raised IOError p
      | Some hms \<Rightarrow>
          then_do (then_do (then_do
            (set_struct_crd i (coordinates hms) p)
            (on_summary (collect_loaded i (violation_stats hms))))
            (on_summary (collect_energies i hms)))
            (\<lambda>q. on_summary (collect_thermo i (nstruct (hss q)) hms) q))"

text \<open>Python's \<open>/\<close> on numbers (true division): a zero divisor raises.\<close>

definition py_truediv :: "rat \<Rightarrow> rat \<Rightarrow> py_error + rat" where
  "py_truediv a b = (if b = 0 then Inl ZeroDivisionError else Inr (a / b))"

definition violation_score_of :: "rat \<Rightarrow> rat \<Rightarrow> py_error + rat" where
  "violation_score_of total_violations total_restraints =
     (if total_restraints = 0 then Inr 0 else py_truediv total_violations total_restraints)"

text \<open>\<open>ModelingStep.teardown_poller\<close>: the score, the two writes, then the close.\<close>

definition teardown_poller :: "poller \<Rightarrow> poller outcome" where
  "teardown_poller p =
     (case violation_score_of (s_n_violations (summary_data p)) (s_n_imposed (summary_data p)) of
        Inl e \<Rightarrow> Raised e p
      | Inr violation_score \<Rightarrow>
          then_do (then_do
            (store_write (\<lambda>h. Inr (h\<lparr>violation := violation_score\<rparr>)) p)
            (\<lambda>q. store_write (\<lambda>h. Inr (h\<lparr>summary_dataset := Some (summary_data q)\<rparr>)) q))
            (\<lambda>q. Done (q\<lparr>hss_open := False\<rparr>)))"

text \<open>The callbacks of one session, in the order the completions are observed; the first
  raise ends it.\<close>

fun aggregate :: "string \<Rightarrow> world \<Rightarrow> nat list \<Rightarrow> poller \<Rightarrow> poller outcome" where
  "aggregate tmp_dir w [] p = Done p"
| "aggregate tmp_dir w (i # rest) p =
     (case set_structure tmp_dir w i p of
        Done q \<Rightarrow> aggregate tmp_dir w rest q
      | Raised e q \<Rightarrow> Raised e q)"

section \<open>What the members report, and when a callback cannot fail\<close>

text \<open>
  The totals one member's statistics record contributes, read off the record itself, and
  the conditions under which \<open>set_structure\<close> runs to its end: histograms of the
  aggregate's shape (\<open>DEFAULT_HIST_BINS + 1\<close> counts), arrays of the summary sized to the
  population, a member id inside them, an open and writable store.
\<close>

definition vec_add :: "rat list \<Rightarrow> rat list \<Rightarrow> rat list" where
  "vec_add a b = map2 (+) a b"

definition entry_n_imposed :: "stats_entry \<Rightarrow> rat" where
  "entry_n_imposed e = (case e of Record c \<Rightarrow> cfg_get (c_n_imposed c) 0 | NotARecord \<Rightarrow> 0)"

definition entry_n_violations :: "stats_entry \<Rightarrow> rat" where
  "entry_n_violations e = (case e of Record c \<Rightarrow> cfg_get (c_n_violations c) 0 | NotARecord \<Rightarrow> 0)"

definition entry_counts :: "stats_entry \<Rightarrow> rat list" where
  "entry_counts e = (case e of Record c \<Rightarrow> cfg_get (histogram_counts c) [] | NotARecord \<Rightarrow> [])"

definition vstat_n_imposed :: "loaded_stats \<Rightarrow> rat" where
  "vstat_n_imposed vs = sum_list (map (\<lambda>kc. entry_n_imposed (snd kc)) vs)"

definition vstat_n_violations :: "loaded_stats \<Rightarrow> rat" where
  "vstat_n_violations vs = sum_list (map (\<lambda>kc. entry_n_violations (snd kc)) vs)"

definition vstat_counts :: "loaded_stats \<Rightarrow> rat list" where
  "vstat_counts vs =
     foldl vec_add (zeros (DEFAULT_HIST_BINS + 1)) (map (\<lambda>kc. entry_counts (snd kc)) vs)"

definition cstat_ok :: "cstat \<Rightarrow> bool" where
  "cstat_ok c = (case histogram_counts c of None \<Rightarrow> False | Some cs \<Rightarrow> length cs = DEFAULT_HIST_BINS + 1)"

definition entry_ok :: "stats_entry \<Rightarrow> bool" where
  "entry_ok e = (case e of Record c \<Rightarrow> cstat_ok c | NotARecord \<Rightarrow> False)"

definition buckets_ok :: "(string \<times> bucket) list \<Rightarrow> bool" where
  "buckets_ok bs = (\<forall>kb \<in> set bs. length (b_counts (snd kb)) = DEFAULT_HIST_BINS + 1)"

definition thermo_ok :: "nat \<Rightarrow> (string \<times> rat list) list \<Rightarrow> bool" where
  "thermo_ok n th = (\<forall>ka \<in> set th. length (snd ka) = n)"

definition summary_inv :: "nat \<Rightarrow> nat \<Rightarrow> summary \<Rightarrow> bool" where
  "summary_inv pop n sd =
     (length (s_counts sd) = DEFAULT_HIST_BINS + 1
      \<and> length (by_n_imposed sd) = pop \<and> length (by_n_violations sd) = pop
      \<and> length (total_energies sd) = pop \<and> length (pair_energies sd) = pop
      \<and> length (bond_energies sd) = pop
      \<and> buckets_ok (byrestraint sd)
      \<and> (\<forall>ka \<in> set (thermo sd). length (snd ka) = n))"

definition poller_inv :: "nat \<Rightarrow> poller \<Rightarrow> bool" where
  "poller_inv pop p =
     (hss_open p \<and> hss_writable p \<and> length (struct_crd (hss p)) = nstruct (hss p)
      \<and> summary_inv pop (nstruct (hss p)) (summary_data p))"

definition member_vstat :: "string \<Rightarrow> world \<Rightarrow> nat \<Rightarrow> loaded_stats" where
  "member_vstat tmp_dir w i =
     (case results w (hms_name tmp_dir i) of
        None \<Rightarrow> []
      | Some f \<Rightarrow> (case loaded_vstat (violation_stats f) of None \<Rightarrow> [] | Some v \<Rightarrow> v))"

definition member_ok :: "string \<Rightarrow> world \<Rightarrow> nat \<Rightarrow> nat \<Rightarrow> nat \<Rightarrow> bool" where
  "member_ok tmp_dir w pop n i =
     (i < pop \<and> i < n \<and>
      (case results w (hms_name tmp_dir i) of
         None \<Rightarrow> False
       | Some f \<Rightarrow>
           (case loaded_vstat (violation_stats f) of
              None \<Rightarrow> False
            | Some v \<Rightarrow> (\<forall>kc \<in> set v. entry_ok (snd kc)))
           \<and> (case opt_info_dict f of None \<Rightarrow> True | Some d \<Rightarrow> oi_thermo d \<noteq> None)))"

definition vstat_count_total :: "loaded_stats \<Rightarrow> rat" where
  "vstat_count_total vs = sum_list (map (\<lambda>kc. sum_list (entry_counts (snd kc))) vs)"

text \<open>The scenario of four members: ten imposed restraints each, two violations in the
  last one.\<close>

definition scenario_cfg :: config where
  "scenario_cfg = \<lparr>population_size = 4, structure_output = ''igm.hss'', step_hash = Some ''step'',
                   clean_restart = None, violation_tolerance = Some (1 / 100)\<rparr>"

definition scenario_member :: "rat \<Rightarrow> hms_file" where
  "scenario_member nv =
     \<lparr>coordinates = [Fin 0, Fin 0, Fin 0],
      violation_stats = Parsed [(''Envelope'',
        Record \<lparr>histogram_counts = Some ((10 - nv) # nv # replicate 99 0), histogram_edges = [],
                c_n_violations = Some nv, c_n_imposed = Some 10\<rparr>)],
      opt_info = None, opt_info_dict = None\<rparr>"

definition scenario_world :: world where
  "scenario_world =
     \<lparr>markers = {},
      results = map_of [(hms_name ''tmp'' 0, scenario_member 0), (hms_name ''tmp'' 1, scenario_member 0),
                        (hms_name ''tmp'' 2, scenario_member 0), (hms_name ''tmp'' 3, scenario_member 2)],
      stores = map_of [(''igm.hss.T'',
                 \<lparr>nstruct = 4, nbead = 1, struct_crd = replicate 4 [], violation = 0,
                  summary_dataset = None\<rparr>)],
      runtime_violation_score = None\<rparr>"

text \<open>A poller state at the end of the scenario, before teardown.\<close>

definition example_poller :: poller where
  "example_poller =
     \<lparr>hss = \<lparr>nstruct = 4, nbead = 1, struct_crd = replicate 4 [], violation = 0,
              summary_dataset = None\<rparr>,
      hss_open = True, hss_writable = True,
      summary_data =
        \<lparr>s_n_imposed = 40, s_n_violations = 2,
         s_counts = zeros (DEFAULT_HIST_BINS + 1), s_edges = summary_edges,
         by_n_imposed = [10, 10, 10, 10], by_n_violations = [0, 0, 0, 2],
         total_energies = zeros 4, pair_energies = zeros 4, bond_energies = zeros 4,
         thermo = [], byrestraint = []\<rparr>\<rparr>"

text \<open>The three totals of a summary; the scenario with the statistics of the last member
  unparseable, and with statistics that parse but have lost the \<open>histogram\<close> key;
  the scenario's poller on a storage that refuses writes.\<close>

definition totals :: "summary \<Rightarrow> rat \<times> rat \<times> rat list" where
  "totals sd = (s_n_imposed sd, s_n_violations sd, s_counts sd)"

definition damaged_world :: world where
  "damaged_world =
     scenario_world\<lparr>results := (results scenario_world)
        (hms_name ''tmp'' 3 \<mapsto> (scenario_member 2)\<lparr>violation_stats := Unparseable\<rparr>)\<rparr>"

definition keyless_world :: world where
  "keyless_world =
     scenario_world\<lparr>results := (results scenario_world)
        (hms_name ''tmp'' 3 \<mapsto> (scenario_member 2)\<lparr>violation_stats :=
           Parsed [(''Envelope'',
             Record \<lparr>histogram_counts = None, histogram_edges = [],
                     c_n_violations = Some 2, c_n_imposed = Some 10\<rparr>)]\<rparr>)\<rparr>"

definition faulty_poller :: poller where
  "faulty_poller = example_poller\<lparr>hss_writable := False\<rparr>"

text \<open>A model run of three coordinates with one restraint, a restraint with one ratio
  of one half, and a world with the input store of the task and nothing else.\<close>

definition example_run :: model_run where
  "example_run =
     \<lparr>getCoordinates = [Fin 1, Fin 2, Fin 3],
      monitored_restraints =
        [\<lparr>repr = ''Envelope'',
          forces = [\<lparr>rnum = 1, getViolationRatios = [], getViolationRatio = Fin (1 / 200)\<rparr>]\<rparr>],
      run_optinfo = None\<rparr>"


definition half_restraint :: restraint where
  "half_restraint =
     \<lparr>repr = ''Envelope'',
      forces = [\<lparr>rnum = 1, getViolationRatios = [], getViolationRatio = Fin (1 / 2)\<rparr>]\<rparr>"

definition task_world :: world where
  "task_world =
     \<lparr>markers = {},
      results = Map.empty,
      stores = map_of [(''igm.hss'',
                 \<lparr>nstruct = 4, nbead = 1, struct_crd = replicate 4 [Fin 0, Fin 0, Fin 0],
                  violation = 0, summary_dataset = None\<rparr>)],
      runtime_violation_score = None\<rparr>"




section \<open>The completion poller\<close>

text \<open>\<open>_run_poller\<close>: the markers to watch and the callback arguments, one pair per
  member id of \<open>argument_list\<close>.\<close>

definition poller_files :: "config \<Rightarrow> string \<Rightarrow> string \<Rightarrow> string list" where
  "poller_files cfg tmp_dir uid = map (readyfile_of tmp_dir uid) (argument_list cfg)"

definition poller_args :: "config \<Rightarrow> nat list list" where
  "poller_args cfg = map (\<lambda>i. [i]) (argument_list cfg)"

text \<open>
  Modelled from the spec: the polling loop of \<open>FilePoller\<close>
  (\<open>igm.parallel.async_file_operations\<close>, which the modelled sources only import). The spec: the loop
  "repeatedly scans the outstanding marker set at a bounded interval; for each marker found
  present and not yet consumed, invokes the callback with that marker's associated
  arguments, then marks it consumed", and the session ends once all expected markers are
  consumed. One scan takes the set of files present at that moment; it returns the markers
  still outstanding and the arguments of the callbacks it made, in order. \<open>watch\<close> runs
  the scans for a sequence of observations of the directory, stopping when nothing is
  outstanding; markers that never appear leave the poller waiting, with its outstanding
  list not empty.
\<close>

definition scan :: "string set \<Rightarrow> (string \<times> 'a) list \<Rightarrow> (string \<times> 'a) list \<times> 'a list" where
  "scan present outstanding =
     (filter (\<lambda>fa. fst fa \<notin> present) outstanding,
      map snd (filter (\<lambda>fa. fst fa \<in> present) outstanding))"

fun watch :: "string set list \<Rightarrow> (string \<times> 'a) list \<Rightarrow> 'a list \<Rightarrow> (string \<times> 'a) list \<times> 'a list" where
  "watch [] outstanding calls = (outstanding, calls)"
| "watch (present # later) outstanding calls =
     (if outstanding = [] then (outstanding, calls)
      else watch later (fst (scan present outstanding)) (calls @ snd (scan present outstanding)))"

definition run_poller ::
  "config \<Rightarrow> string \<Rightarrow> string \<Rightarrow> string set list \<Rightarrow> (string \<times> nat list) list \<times> nat list list" where
  "run_poller cfg tmp_dir uid observations =
     watch observations (zip (poller_files cfg tmp_dir uid) (poller_args cfg)) []"

section \<open>Reduce: repacking the store\<close>

text \<open>
  \<open>log_stats\<close> only reads the store: the score it returns goes into the driver's
  configuration, and there is none without a summary. Its log lines are not modelled.
\<close>

definition log_stats :: "hss_file \<Rightarrow> rat option" where
  "log_stats h =
     (case summary_dataset h of
        None \<Rightarrow> None
      | Some sd \<Rightarrow>
         (case violation_score_of (s_n_violations sd) (s_n_imposed sd) of
            Inl e \<Rightarrow> None
          | Inr v \<Rightarrow> Some v))"

definition pack_beads :: "nat \<Rightarrow> nat \<Rightarrow> nat" where
  "pack_beads n_struct n_beads =
     min (max 1 (nat \<lfloor>(1000000 :: rat) / of_nat n_struct / 3\<rfloor>)) n_beads"

definition repack_cmd :: "string \<Rightarrow> hss_file \<Rightarrow> string list" where
  "repack_cmd hssfilename h =
     [''h5repack'', ''-i'', hssfilename, ''-o'', hssfilename @ ''.swap'', ''-l'',
      ''coordinates:CHUNK='' @ str_nat (pack_beads (nstruct h) (nbead h)) @ ''x''
         @ str_nat (nstruct h) @ ''x3'',
      ''-v'']"

text \<open>
  \<open>ModelingStep.reduce\<close>, from the moment the poller has finished. The subprocess is a
  parameter: given the command and the world it returns its exit code and the file it
  left at the output path, if any (\<open>h5repack\<close> writes nowhere else).
  \<open>intermediate_name\<close> is the value of \<open>self.intermediate_name()\<close>. A store without
  structures makes the chunk size computation divide by zero.
\<close>

definition reduce ::
  "config \<Rightarrow> bool \<Rightarrow> string \<Rightarrow> (string list \<Rightarrow> world \<Rightarrow> int \<times> hss_file option) \<Rightarrow> world
     \<Rightarrow> world outcome" where
  "reduce cfg keep_intermediate_structures intermediate_name h5repack w =
     (let hssfilename = structure_output cfg @ ''.T''
      in case stores w hssfilename of
           None \<Rightarrow> Raised IOError w
         | Some h \<Rightarrow>
            let w0 = w\<lparr>runtime_violation_score := log_stats h\<rparr>
            in if nstruct h = 0 then Raised ZeroDivisionError w0
               else
                 let sp = h5repack (repack_cmd hssfilename h) w0;
                     w1 = (case snd sp of
                             None \<Rightarrow> w0
                           | Some out \<Rightarrow> w0\<lparr>stores := (stores w0)(hssfilename @ ''.swap'' \<mapsto> out)\<rparr>)
                 in if fst sp \<noteq> 0 then Raised RuntimeError w1
                    else case stores w1 (hssfilename @ ''.swap'') of
                           None \<Rightarrow> Raised IOError w1
                         | Some packed \<Rightarrow>
                            let w2 = (if keep_intermediate_structures
                                      then w1\<lparr>stores := (stores w1)(intermediate_name @ ''.hss'' \<mapsto> packed)\<rparr>
                                      else w1)
                            in Done (w2\<lparr>stores := ((stores w2)(structure_output cfg \<mapsto> packed))
                                                      (hssfilename @ ''.swap'' := None)\<rparr>))"

text \<open>A store with a summary, repacked in the scenario, and two subprocesses: one that
  fails after leaving a partial output, one that succeeds.\<close>

definition repack_world :: world where
  "repack_world =
     \<lparr>markers = {}, results = Map.empty,
      stores = map_of
        [(''igm.hss'', \<lparr>nstruct = 4, nbead = 2, struct_crd = replicate 4 [], violation = 0,
                        summary_dataset = None\<rparr>),
         (''igm.hss.T'', \<lparr>nstruct = 4, nbead = 2, struct_crd = replicate 4 [Fin 1], violation = 1 / 20,
                          summary_dataset = Some (summary_data example_poller)\<rparr>)],
      runtime_violation_score = None\<rparr>"

definition failing_repack :: "string list \<Rightarrow> world \<Rightarrow> int \<times> hss_file option" where
  "failing_repack cmd w =
     (1, Some \<lparr>nstruct = 0, nbead = 0, struct_crd = [], violation = 0, summary_dataset = None\<rparr>)"

definition working_repack :: "string list \<Rightarrow> world \<Rightarrow> int \<times> hss_file option" where
  "working_repack cmd w = (0, stores w (cmd ! 2))"

section \<open>Properties of the histogram\<close>

lemma sum_count_list_below:
  "\<forall>i \<in> set ks. i < n \<Longrightarrow> sum_list (map (\<lambda>j. count_list ks j) [0..<n]) = length ks"
proof (induction ks)
  case Nil
  then show ?case by (induction n) simp_all
next
  case (Cons i ks)
  then have i: "i < n" and rest: "\<forall>k \<in> set ks. k < n" by simp_all
  have "sum_list (map (\<lambda>j. count_list (i # ks) j) [0..<n])
        = sum_list (map (\<lambda>j. count_list ks j + (if j = i then 1 else 0)) [0..<n])"
    by (rule arg_cong [where f = sum_list]) auto
  also have "\<dots> = sum_list (map (\<lambda>j. count_list ks j) [0..<n])
                  + sum_list (map (\<lambda>j. if j = i then 1 else 0) [0..<n])"
    by (simp add: sum_list_addf)
  also have "sum_list (map (\<lambda>j. if j = i then 1 else 0) [0..<n]) = (1::nat)"
    using i by (simp add: interv_sum_list_conv_sum_set_nat)
  finally show ?case using Cons.IH [OF rest] by simp
qed

lemma bin_index_below: "0 < n \<Longrightarrow> first_edge < last_edge \<Longrightarrow>
  f_ge x (Fin first_edge) \<Longrightarrow> f_le x (Fin last_edge) \<Longrightarrow> bin_index first_edge last_edge n x < n"
proof (cases x)
  case (Fin r)
  assume n: "0 < n" and fl: "first_edge < last_edge" and ge: "f_ge x (Fin first_edge)" and le: "f_le x (Fin last_edge)"
  from ge le Fin have r: "first_edge \<le> r" "r \<le> last_edge" by (simp_all add: f_ge_def)
  have "(r - first_edge) * (of_nat n / (last_edge - first_edge)) \<le> of_nat n"
  proof -
    have "(r - first_edge) / (last_edge - first_edge) \<le> 1" using r fl by simp
    then have "(r - first_edge) / (last_edge - first_edge) * of_nat n \<le> 1 * of_nat n"
      by (rule mult_right_mono) simp
    then show ?thesis by (simp add: field_simps)
  qed
  then have "\<lfloor>(r - first_edge) * (of_nat n / (last_edge - first_edge))\<rfloor> \<le> int n"
    by (simp add: floor_le_iff)
  then have "nat \<lfloor>(r - first_edge) * (of_nat n / (last_edge - first_edge))\<rfloor> \<le> n" by linarith
  then show ?thesis using n Fin by (auto simp: Let_def)
qed (simp_all)

lemma nonneg_gt_iff: "f_le (Fin 0) x \<Longrightarrow> f_gt x (Fin b) = (\<not> f_le x (Fin b))"
  by (cases x) simp_all

lemma nonneg_ge_edge: "f_le (Fin 0) x \<Longrightarrow> e \<le> 0 \<Longrightarrow> f_ge x (Fin e)"
  by (cases x) (simp_all add: f_ge_def)

lemma bin_index_last:
  assumes "0 < n" "0 < vmax"
  shows "bin_index 0 vmax n (Fin vmax) = n - 1"
proof -
  have "vmax * (of_nat n / vmax) = of_nat n" using assms by simp
  then show ?thesis by (simp add: Let_def)
qed

lemma np_histogram_inner:
  assumes nonneg: "\<forall>x \<in> set a. f_le (Fin 0) x"
    and below: "\<forall>x \<in> set a. f_le x (Fin vmax)"
    and bins: "0 < bins" and vmax: "0 \<le> vmax"
  shows "\<exists>H edges. np_histogram a bins (0, vmax) = Inr (H, edges) \<and> length H = bins
           \<and> sum_list H = length a \<and> length edges = bins + 1
           \<and> (0 < vmax \<longrightarrow> count_list a (Fin vmax) \<le> H ! (bins - 1))"
proof -
  define first_edge where "first_edge = (if 0 = vmax then 0 - 1 / 2 else (0::rat))"
  define last_edge where "last_edge = (if 0 = vmax then vmax + 1 / 2 else vmax)"
  define keep where "keep = filter (\<lambda>x. f_ge x (Fin first_edge) \<and> f_le x (Fin last_edge)) a"
  define indices where "indices = map (bin_index first_edge last_edge bins) keep"
  have edges: "first_edge \<le> 0" "vmax \<le> last_edge" "first_edge < last_edge"
    using vmax by (auto simp: first_edge_def last_edge_def)
  have le_last: "f_le x (Fin last_edge)" if "x \<in> set a" for x
  proof -
    from that below have "f_le x (Fin vmax)" by blast
    with edges(2) show ?thesis by (cases x) simp_all
  qed
  have keep_all: "keep = a"
    unfolding keep_def using nonneg le_last edges(1) by (auto simp: nonneg_ge_edge filter_id_conv)
  have "\<forall>i \<in> set indices. i < bins"
    unfolding indices_def keep_def using bins edges(3) by (auto intro: bin_index_below)
  then have total: "sum_list (map (\<lambda>j. count_list indices j) [0..<bins]) = length a"
    using sum_count_list_below [of indices bins] by (simp add: indices_def keep_all)
  have lastbin: "count_list a (Fin vmax) \<le> map (\<lambda>j. count_list indices j) [0..<bins] ! (bins - 1)"
    if "0 < vmax"
  proof -
    from that have fl: "first_edge = 0" "last_edge = vmax"
      by (simp_all add: first_edge_def last_edge_def)
    have "count_list a (Fin vmax) \<le> count_list indices (bin_index 0 vmax bins (Fin vmax))"
      unfolding indices_def keep_all fl by (rule count_list_map_ge)
    then show ?thesis using bins that by (simp add: bin_index_last)
  qed
  have "np_histogram a bins (0, vmax)
        = Inr (map (\<lambda>j. count_list indices j) [0..<bins], linspace first_edge last_edge bins)"
    using bins vmax
    by (simp add: np_histogram_def Let_def indices_def keep_def first_edge_def last_edge_def)
  then show ?thesis using total lastbin by (simp add: linspace_def)
qed

text \<open>
  C10. For nonnegative ratios (so no NaN among them), a positive number of bins and a
  nonnegative \<open>vmax\<close>, \<open>get_violation_histogram\<close> returns \<open>nbins + 1\<close> counts that add
  up to the number of ratios: the overflow bin holds exactly the ratios above \<open>vmax\<close>, the
  interior bins together exactly the ratios up to and including \<open>vmax\<close>, and a ratio equal
  to a positive \<open>vmax\<close> lands in the last interior bin.
\<close>

theorem get_violation_histogram_counts_all:
  assumes nonneg: "\<forall>x \<in> set v. f_le (Fin 0) x"
    and bins: "0 < nbins" and vmax: "0 \<le> vmax"
  shows "\<exists>H edges. get_violation_histogram v nbins vmax = Inr (H, edges)
           \<and> length H = nbins + 1
           \<and> sum_list H = length v
           \<and> H ! nbins = length (filter (\<lambda>x. f_gt x (Fin vmax)) v)
           \<and> sum_list (take nbins H) = length (filter (\<lambda>x. f_le x (Fin vmax)) v)
           \<and> (0 < vmax \<longrightarrow> count_list v (Fin vmax) \<le> H ! (nbins - 1))
           \<and> length edges = nbins + 2"
proof -
  define inner where "inner = filter (\<lambda>x. f_le x (Fin vmax)) v"
  define over where "over = count_nonzero (map (\<lambda>x. f_gt x (Fin vmax)) v)"
  have over_eq: "over = length (filter (\<lambda>x. f_gt x (Fin vmax)) v)"
    by (simp add: over_def count_nonzero_def filter_map comp_def)
  have "filter (\<lambda>x. f_gt x (Fin vmax)) v = filter (\<lambda>x. \<not> f_le x (Fin vmax)) v"
    using nonneg by (intro filter_cong) (auto simp: nonneg_gt_iff)
  then have split: "length inner + over = length v"
    unfolding over_eq inner_def by (simp add: sum_length_filter_compl)
  have "\<forall>x \<in> set inner. f_le (Fin 0) x" "\<forall>x \<in> set inner. f_le x (Fin vmax)"
    using nonneg by (auto simp: inner_def)
  from np_histogram_inner [OF this bins vmax]
  obtain H edges where H: "np_histogram inner nbins (0, vmax) = Inr (H, edges)"
    "length H = nbins" "sum_list H = length inner" "length edges = nbins + 1"
    "0 < vmax \<longrightarrow> count_list inner (Fin vmax) \<le> H ! (nbins - 1)"
    by blast
  have res: "get_violation_histogram v nbins vmax = Inr (H @ [over], map Fin edges @ [PInf])"
    using H(1) by (simp add: get_violation_histogram_def Let_def inner_def over_def)
  have "filter ((=) (Fin vmax)) inner = filter ((=) (Fin vmax)) v"
    unfolding inner_def by (induction v) auto
  then have "count_list inner (Fin vmax) = count_list v (Fin vmax)"
    by (simp add: count_list_eq_length_filter)
  then have lastbin: "0 < vmax \<longrightarrow> count_list v (Fin vmax) \<le> (H @ [over]) ! (nbins - 1)"
    using H(2,5) bins by (simp add: nth_append)
  show ?thesis
    using res H(2,3,4) split over_eq lastbin by (simp add: nth_append inner_def)
qed

theorem get_violation_histogram_counts_all_witness:
  "\<exists>H edges. get_violation_histogram [Fin (1 / 4), Fin 1, Fin 3, PInf] 2 1 = Inr (H, edges)
     \<and> length H = 3 \<and> sum_list H = 4 \<and> H ! 2 = 2 \<and> sum_list (take 2 H) = 2 \<and> 1 \<le> H ! 1"
proof -
  from get_violation_histogram_counts_all [of "[Fin (1 / 4), Fin 1, Fin 3, PInf]" 2 1]
  obtain H edges where "get_violation_histogram [Fin (1 / 4), Fin 1, Fin 3, PInf] 2 1 = Inr (H, edges)"
    "length H = 2 + 1" "sum_list H = length [Fin (1 / 4), Fin 1, Fin 3, PInf]"
    "H ! 2 = length (filter (\<lambda>x. f_gt x (Fin 1)) [Fin (1 / 4), Fin 1, Fin 3, PInf])"
    "sum_list (take 2 H) = length (filter (\<lambda>x. f_le x (Fin 1)) [Fin (1 / 4), Fin 1, Fin 3, PInf])"
    "count_list [Fin (1 / 4), Fin 1, Fin 3, PInf] (Fin 1) \<le> H ! (2 - 1)"
    by auto
  then show ?thesis by simp
qed

section \<open>Properties of the aggregator\<close>

lemma then_do_Done_iff: "then_do r f = Done q \<longleftrightarrow> (\<exists>s. r = Done s \<and> f s = Done q)"
  by (cases r) simp_all

lemma map_of_dict_set: "map_of (dict_set k v ps) k' = (if k' = k then Some v else map_of ps k')"
  by (induction ps) auto

lemma set_dict_set: "set (dict_set k v ps) \<subseteq> insert (k, v) (set ps)"
  by (induction ps) auto

lemma np_iadd_same: "length b = length a \<Longrightarrow> np_iadd a b = Inr (map2 (+) a b)"
  by (simp add: np_iadd_def)

lemma buckets_ok_dict_set:
  "buckets_ok bs \<Longrightarrow> length (b_counts b) = DEFAULT_HIST_BINS + 1 \<Longrightarrow> buckets_ok (dict_set k b bs)"
  unfolding buckets_ok_def using set_dict_set [of k b bs] by auto

lemma buckets_ok_map_of: "buckets_ok bs \<Longrightarrow> map_of bs k = Some b \<Longrightarrow> length (b_counts b) = DEFAULT_HIST_BINS + 1"
  unfolding buckets_ok_def by (force dest: map_of_SomeD)

lemma stat_step_ok:
  assumes c: "cstat_ok (snd kc)" and h: "length (hist_tot l) = DEFAULT_HIST_BINS + 1"
    and b: "buckets_ok (buckets l)"
  shows "\<exists>l'. stat_step kc l = Done l'
           \<and> n_tot l' = n_tot l + cfg_get (c_n_imposed (snd kc)) 0
           \<and> n_vio l' = n_vio l + cfg_get (c_n_violations (snd kc)) 0
           \<and> hist_tot l' = map2 (+) (hist_tot l) (cfg_get (histogram_counts (snd kc)) [])
           \<and> buckets_ok (buckets l')"
proof -
  from c obtain cs where cs: "histogram_counts (snd kc) = Some cs" "length cs = DEFAULT_HIST_BINS + 1"
    by (auto simp: cstat_ok_def split: option.splits)
  define k where "k = fst kc"
  define bs where "bs = ensure_bucket k (buckets l)"
  have bs_ok: "buckets_ok bs"
    unfolding bs_def ensure_bucket_def using b by (auto intro: buckets_ok_dict_set simp: zeros_def)
  obtain bk where bk: "map_of bs k = Some bk"
    unfolding bs_def ensure_bucket_def
    by (cases "map_of (buckets l) k") (auto simp: map_of_dict_set)
  then have bl: "length (b_counts bk) = DEFAULT_HIST_BINS + 1"
    using bs_ok by (rule buckets_ok_map_of [rotated])
  show ?thesis
    using cs h bl bk bs_ok
    by (auto simp: stat_step_def Let_def np_iadd_same k_def [symmetric] bs_def [symmetric] cfg_get_def
        intro!: buckets_ok_dict_set)
qed

lemma stat_entry_step_ok:
  assumes c: "entry_ok (snd ke)" and h: "length (hist_tot l) = DEFAULT_HIST_BINS + 1"
    and b: "buckets_ok (buckets l)"
  shows "\<exists>l'. stat_entry_step ke l = Done l'
           \<and> n_tot l' = n_tot l + entry_n_imposed (snd ke)
           \<and> n_vio l' = n_vio l + entry_n_violations (snd ke)
           \<and> hist_tot l' = vec_add (hist_tot l) (entry_counts (snd ke))
           \<and> length (entry_counts (snd ke)) = DEFAULT_HIST_BINS + 1
           \<and> buckets_ok (buckets l')"
proof -
  from c obtain r where r: "snd ke = Record r" "cstat_ok r"
    by (auto simp: entry_ok_def split: stats_entry.splits)
  then have "cstat_ok (snd (fst ke, r))" by simp
  from stat_step_ok [OF this h b] obtain l' where "stat_step (fst ke, r) l = Done l'"
    "n_tot l' = n_tot l + cfg_get (c_n_imposed r) 0"
    "n_vio l' = n_vio l + cfg_get (c_n_violations r) 0"
    "hist_tot l' = map2 (+) (hist_tot l) (cfg_get (histogram_counts r) [])"
    "buckets_ok (buckets l')" by auto
  moreover have "length (cfg_get (histogram_counts r) []) = DEFAULT_HIST_BINS + 1"
    using r(2) by (auto simp: cstat_ok_def cfg_get_def split: option.splits)
  ultimately show ?thesis
    using r(1)
    by (simp add: stat_entry_step_def entry_n_imposed_def entry_n_violations_def entry_counts_def
        vec_add_def)
qed

lemma stat_items_ok:
  assumes "\<forall>kc \<in> set vs. entry_ok (snd kc)" "length (hist_tot l) = DEFAULT_HIST_BINS + 1"
    "buckets_ok (buckets l)"
  shows "\<exists>l'. stat_items vs l = Done l'
           \<and> n_tot l' = n_tot l + vstat_n_imposed vs
           \<and> n_vio l' = n_vio l + vstat_n_violations vs
           \<and> hist_tot l' = foldl vec_add (hist_tot l) (map (\<lambda>kc. entry_counts (snd kc)) vs)
           \<and> length (hist_tot l') = DEFAULT_HIST_BINS + 1
           \<and> buckets_ok (buckets l')"
  using assms
proof (induction vs arbitrary: l)
  case Nil
  then show ?case by (simp add: vstat_n_imposed_def vstat_n_violations_def)
next
  case (Cons kc vs)
  from Cons.prems have c: "entry_ok (snd kc)" by simp
  from stat_entry_step_ok [OF c Cons.prems(2,3)] obtain l1 where l1: "stat_entry_step kc l = Done l1"
    "n_tot l1 = n_tot l + entry_n_imposed (snd kc)"
    "n_vio l1 = n_vio l + entry_n_violations (snd kc)"
    "hist_tot l1 = vec_add (hist_tot l) (entry_counts (snd kc))"
    "length (entry_counts (snd kc)) = DEFAULT_HIST_BINS + 1"
    "buckets_ok (buckets l1)" by blast
  from l1(4,5) Cons.prems(2) have len: "length (hist_tot l1) = DEFAULT_HIST_BINS + 1"
    by (simp add: vec_add_def)
  from Cons.prems(1) have rest: "\<forall>kc \<in> set vs. entry_ok (snd kc)" by simp
  from Cons.IH [OF rest len l1(6)] obtain l' where l': "stat_items vs l1 = Done l'"
    "n_tot l' = n_tot l1 + vstat_n_imposed vs"
    "n_vio l' = n_vio l1 + vstat_n_violations vs"
    "hist_tot l' = foldl vec_add (hist_tot l1) (map (\<lambda>kc. entry_counts (snd kc)) vs)"
    "length (hist_tot l') = DEFAULT_HIST_BINS + 1"
    "buckets_ok (buckets l')" by blast
  show ?case
    using l1(1,2,3,4) l' by (simp add: vstat_n_imposed_def vstat_n_violations_def)
qed

lemma length_vec_add: "length a = n \<Longrightarrow> length b = n \<Longrightarrow> length (vec_add a b) = n"
  by (simp add: vec_add_def)

lemma nth_vec_add: "j < length a \<Longrightarrow> j < length b \<Longrightarrow> vec_add a b ! j = a ! j + b ! j"
  by (simp add: vec_add_def)

lemma sum_list_vec_add: "length a = length b \<Longrightarrow> sum_list (vec_add a b) = sum_list a + sum_list b"
  unfolding vec_add_def by (induction a b rule: list_induct2) simp_all

lemma foldl_vec_add_nth:
  "length a = n \<Longrightarrow> \<forall>v \<in> set vs. length v = n \<Longrightarrow>
     length (foldl vec_add a vs) = n
     \<and> (\<forall>j < n. foldl vec_add a vs ! j = a ! j + sum_list (map (\<lambda>v. v ! j) vs))"
proof (induction vs arbitrary: a)
  case Nil
  then show ?case by simp
next
  case (Cons v vs)
  then have v: "length v = n" and rest: "\<forall>u \<in> set vs. length u = n" by simp_all
  have la: "length (vec_add a v) = n" using Cons.prems(1) v by (rule length_vec_add)
  from Cons.IH [OF la rest] show ?case
    using Cons.prems(1) v by (simp add: nth_vec_add add.assoc)
qed

lemma foldl_vec_add_sum:
  "length a = n \<Longrightarrow> \<forall>v \<in> set vs. length v = n \<Longrightarrow>
     sum_list (foldl vec_add a vs) = sum_list a + sum_list (map sum_list vs)"
proof (induction vs arbitrary: a)
  case Nil
  then show ?case by simp
next
  case (Cons v vs)
  then have v: "length v = n" and rest: "\<forall>u \<in> set vs. length u = n" by simp_all
  have la: "length (vec_add a v) = n" using Cons.prems(1) v by (rule length_vec_add)
  from Cons.IH [OF la rest] show ?case
    using Cons.prems(1) v by (simp add: sum_list_vec_add add.assoc)
qed

lemma collect_violation_stats_ok:
  assumes vs: "\<forall>kc \<in> set vs. entry_ok (snd kc)" and inv: "summary_inv pop n sd" and i: "i < pop"
  shows "\<exists>sd'. collect_violation_stats i vs sd = Done sd'
           \<and> summary_inv pop n sd'
           \<and> s_n_imposed sd' = s_n_imposed sd + vstat_n_imposed vs
           \<and> s_n_violations sd' = s_n_violations sd + vstat_n_violations vs
           \<and> s_counts sd' = vec_add (s_counts sd) (vstat_counts vs)
           \<and> length (vstat_counts vs) = DEFAULT_HIST_BINS + 1
           \<and> by_n_imposed sd' = (by_n_imposed sd)[i := vstat_n_imposed vs]
           \<and> by_n_violations sd' = (by_n_violations sd)[i := vstat_n_violations vs]"
proof -
  define l0 where "l0 = \<lparr>n_tot = 0, n_vio = 0, hist_tot = zeros (DEFAULT_HIST_BINS + 1),
                              buckets = byrestraint sd\<rparr>"
  have "length (hist_tot l0) = DEFAULT_HIST_BINS + 1" "buckets_ok (buckets l0)"
    using inv by (simp_all add: l0_def zeros_def summary_inv_def)
  from stat_items_ok [OF vs this] obtain l where l: "stat_items vs l0 = Done l"
    "n_tot l = n_tot l0 + vstat_n_imposed vs"
    "n_vio l = n_vio l0 + vstat_n_violations vs"
    "hist_tot l = foldl vec_add (hist_tot l0) (map (\<lambda>kc. entry_counts (snd kc)) vs)"
    "length (hist_tot l) = DEFAULT_HIST_BINS + 1"
    "buckets_ok (buckets l)" by blast
  have h: "hist_tot l = vstat_counts vs" using l(4) by (simp add: vstat_counts_def l0_def)
  have start: "n_tot l0 = 0" "n_vio l0 = 0" by (simp_all add: l0_def)
  show ?thesis
    unfolding collect_violation_stats_def l0_def [symmetric]
    using l(1,2,3,5,6) h inv i start
    by (simp add: Let_def np_iadd_same set_item_def summary_inv_def vec_add_def)
qed

lemma collect_energies_ok:
  assumes inv: "summary_inv pop n sd" and i: "i < pop"
  shows "\<exists>sd'. collect_energies i hms sd = Done sd' \<and> summary_inv pop n sd'
           \<and> s_n_imposed sd' = s_n_imposed sd \<and> s_n_violations sd' = s_n_violations sd
           \<and> s_counts sd' = s_counts sd"
  using inv i
  by (auto simp: collect_energies_def set_item_def summary_inv_def Let_def split: option.splits)

lemma thermo_ok_dict_set: "thermo_ok n th \<Longrightarrow> length a = n \<Longrightarrow> thermo_ok n (dict_set k a th)"
  unfolding thermo_ok_def using set_dict_set [of k a th] by auto

lemma thermo_ok_map_of: "thermo_ok n th \<Longrightarrow> map_of th k = Some a \<Longrightarrow> length a = n"
  unfolding thermo_ok_def by (force dest: map_of_SomeD)

lemma thermo_items_ok:
  "i < n \<Longrightarrow> thermo_ok n th \<Longrightarrow> \<exists>th'. thermo_items i n items th = Done th' \<and> thermo_ok n th'"
proof (induction items arbitrary: th)
  case Nil
  then show ?case by simp
next
  case (Cons kv items)
  define th1 where "th1 = (if map_of th (fst kv) = None then dict_set (fst kv) (zeros n) th else th)"
  have ok1: "thermo_ok n th1"
    unfolding th1_def using Cons.prems(2) by (auto intro: thermo_ok_dict_set simp: zeros_def)
  obtain arr where arr: "map_of th1 (fst kv) = Some arr"
    unfolding th1_def by (cases "map_of th (fst kv)") (auto simp: map_of_dict_set)
  with ok1 have len: "length arr = n" by (rule thermo_ok_map_of)
  have ok2: "thermo_ok n (dict_set (fst kv) (arr[i := snd kv]) th1)"
    using ok1 len by (intro thermo_ok_dict_set) simp_all
  from Cons.IH [OF Cons.prems(1) ok2] obtain th' where
    "thermo_items i n items (dict_set (fst kv) (arr[i := snd kv]) th1) = Done th'" "thermo_ok n th'"
    by blast
  then show ?case
    using arr len Cons.prems(1) by (simp add: th1_def [symmetric] Let_def set_item_def)
qed

lemma collect_thermo_ok:
  assumes inv: "summary_inv pop n sd" and i: "i < n"
    and d: "case opt_info_dict hms of None \<Rightarrow> True | Some d \<Rightarrow> oi_thermo d \<noteq> None"
  shows "\<exists>sd'. collect_thermo i n hms sd = Done sd' \<and> summary_inv pop n sd'
           \<and> s_n_imposed sd' = s_n_imposed sd \<and> s_n_violations sd' = s_n_violations sd
           \<and> s_counts sd' = s_counts sd"
proof (cases "opt_info_dict hms")
  case None
  then show ?thesis using inv by (simp add: collect_thermo_def)
next
  case (Some infodict)
  with d obtain items where items: "oi_thermo infodict = Some items" by auto
  have "thermo_ok n (thermo sd)" using inv by (simp add: summary_inv_def thermo_ok_def)
  from thermo_items_ok [OF i this] obtain th' where
    "thermo_items i n items (thermo sd) = Done th'" "thermo_ok n th'" by blast
  then show ?thesis
    using Some items inv by (simp add: collect_thermo_def summary_inv_def thermo_ok_def)
qed

lemma set_structure_ok:
  assumes inv: "poller_inv pop p" and ok: "member_ok tmp_dir w pop (nstruct (hss p)) i"
  shows "\<exists>q. set_structure tmp_dir w i p = Done q \<and> poller_inv pop q
           \<and> nstruct (hss q) = nstruct (hss p)
           \<and> s_n_imposed (summary_data q)
              = s_n_imposed (summary_data p) + vstat_n_imposed (member_vstat tmp_dir w i)
           \<and> s_n_violations (summary_data q)
              = s_n_violations (summary_data p) + vstat_n_violations (member_vstat tmp_dir w i)
           \<and> s_counts (summary_data q)
              = vec_add (s_counts (summary_data p)) (vstat_counts (member_vstat tmp_dir w i))
           \<and> length (vstat_counts (member_vstat tmp_dir w i)) = DEFAULT_HIST_BINS + 1"
proof -
  define n where "n = nstruct (hss p)"
  from ok obtain f v where f: "results w (hms_name tmp_dir i) = Some f"
    and i: "i < pop" "i < n"
    and v: "loaded_vstat (violation_stats f) = Some v"
    and vs: "\<forall>kc \<in> set v. entry_ok (snd kc)"
    and d: "case opt_info_dict f of None \<Rightarrow> True | Some d \<Rightarrow> oi_thermo d \<noteq> None"
    by (auto simp: member_ok_def n_def split: option.splits)
  have mv: "member_vstat tmp_dir w i = v"
    using f v by (simp add: member_vstat_def)
  define p1 where "p1 = p\<lparr>hss := (hss p)\<lparr>struct_crd := (struct_crd (hss p))[i := coordinates f]\<rparr>\<rparr>"
  have s1: "set_struct_crd i (coordinates f) p = Done p1"
    using inv i by (simp add: set_struct_crd_def store_write_def poller_inv_def p1_def n_def)
  have inv1: "summary_inv pop n (summary_data p1)" "summary_data p1 = summary_data p"
    "nstruct (hss p1) = n" "hss_open p1" "hss_writable p1"
    "length (struct_crd (hss p1)) = n"
    using inv by (simp_all add: p1_def poller_inv_def n_def)
  from collect_violation_stats_ok [OF vs inv1(1) i(1)] obtain sd2 where sd2:
    "collect_violation_stats i v (summary_data p1) = Done sd2"
    "summary_inv pop n sd2"
    "s_n_imposed sd2 = s_n_imposed (summary_data p1) + vstat_n_imposed v"
    "s_n_violations sd2 = s_n_violations (summary_data p1) + vstat_n_violations v"
    "s_counts sd2 = vec_add (s_counts (summary_data p1)) (vstat_counts v)"
    "length (vstat_counts v) = DEFAULT_HIST_BINS + 1"
    by blast
  have c2: "collect_loaded i (violation_stats f) (summary_data p1) = Done sd2"
    using sd2(1) v by (simp add: collect_loaded_def)
  from collect_energies_ok [OF sd2(2) i(1)] obtain sd3 where sd3:
    "collect_energies i f sd2 = Done sd3" "summary_inv pop n sd3"
    "s_n_imposed sd3 = s_n_imposed sd2" "s_n_violations sd3 = s_n_violations sd2"
    "s_counts sd3 = s_counts sd2" by blast
  from collect_thermo_ok [OF sd3(2) i(2) d] obtain sd4 where sd4:
    "collect_thermo i n f sd3 = Done sd4" "summary_inv pop n sd4"
    "s_n_imposed sd4 = s_n_imposed sd3" "s_n_violations sd4 = s_n_violations sd3"
    "s_counts sd4 = s_counts sd3" by blast
  have "set_structure tmp_dir w i p = Done (p1\<lparr>summary_data := sd4\<rparr>)"
    using f s1 c2 sd3(1) sd4(1) inv1(3)
    by (simp add: set_structure_def on_summary_def)
  then show ?thesis
    using inv1 sd2 sd3 sd4 mv by (simp add: poller_inv_def n_def)
qed

lemma aggregate_ok:
  assumes "poller_inv pop p" "\<forall>i \<in> set ids. member_ok tmp_dir w pop (nstruct (hss p)) i"
  shows "\<exists>q. aggregate tmp_dir w ids p = Done q \<and> poller_inv pop q
           \<and> nstruct (hss q) = nstruct (hss p)
           \<and> s_n_imposed (summary_data q)
              = s_n_imposed (summary_data p)
                + sum_list (map (\<lambda>i. vstat_n_imposed (member_vstat tmp_dir w i)) ids)
           \<and> s_n_violations (summary_data q)
              = s_n_violations (summary_data p)
                + sum_list (map (\<lambda>i. vstat_n_violations (member_vstat tmp_dir w i)) ids)
           \<and> s_counts (summary_data q)
              = foldl vec_add (s_counts (summary_data p))
                  (map (\<lambda>i. vstat_counts (member_vstat tmp_dir w i)) ids)"
  using assms
proof (induction ids arbitrary: p)
  case Nil
  then show ?case by simp
next
  case (Cons i ids)
  from Cons.prems have ok: "member_ok tmp_dir w pop (nstruct (hss p)) i" by simp
  from set_structure_ok [OF Cons.prems(1) ok] obtain q1 where q1:
    "set_structure tmp_dir w i p = Done q1" "poller_inv pop q1"
    "nstruct (hss q1) = nstruct (hss p)"
    "s_n_imposed (summary_data q1)
       = s_n_imposed (summary_data p) + vstat_n_imposed (member_vstat tmp_dir w i)"
    "s_n_violations (summary_data q1)
       = s_n_violations (summary_data p) + vstat_n_violations (member_vstat tmp_dir w i)"
    "s_counts (summary_data q1)
       = vec_add (s_counts (summary_data p)) (vstat_counts (member_vstat tmp_dir w i))"
    by blast
  have rest: "\<forall>j \<in> set ids. member_ok tmp_dir w pop (nstruct (hss q1)) j"
    using Cons.prems(2) q1(3) by simp
  from Cons.IH [OF q1(2) rest] show ?case
    using q1 by (auto simp: add.assoc)
qed

lemma sum_list_map_mset_cong:
  fixes f :: "'a \<Rightarrow> rat"
  shows "mset xs = mset ys \<Longrightarrow> sum_list (map f xs) = sum_list (map f ys)"
  by (metis mset_map sum_mset_sum_list)

lemma foldl_vec_add_perm:
  assumes "mset xs = mset ys" "length a = n" "\<forall>x \<in> set xs. length (g x) = n"
  shows "foldl vec_add a (map g xs) = foldl vec_add a (map g ys)"
proof -
  from assms(1) have sets: "set ys = set xs" by (metis set_mset_mset)
  have vx: "\<forall>v \<in> set (map g xs). length v = n" and vy: "\<forall>v \<in> set (map g ys). length v = n"
    using assms(3) sets by auto
  note X = foldl_vec_add_nth [OF assms(2) vx] and Y = foldl_vec_add_nth [OF assms(2) vy]
  show ?thesis
  proof (rule nth_equalityI)
    show "length (foldl vec_add a (map g xs)) = length (foldl vec_add a (map g ys))"
      using X Y by simp
  next
    fix j assume "j < length (foldl vec_add a (map g xs))"
    then have j: "j < n" using X by simp
    have "sum_list (map (\<lambda>v. v ! j) (map g xs)) = sum_list (map (\<lambda>v. v ! j) (map g ys))"
      using sum_list_map_mset_cong [OF assms(1), of "\<lambda>x. g x ! j"] by (simp add: comp_def)
    then show "foldl vec_add a (map g xs) ! j = foldl vec_add a (map g ys) ! j"
      using X Y j by simp
  qed
qed

lemma vstat_counts_total:
  assumes "\<forall>kc \<in> set vs. entry_ok (snd kc)"
  shows "sum_list (vstat_counts vs) = vstat_count_total vs"
    and "length (vstat_counts vs) = DEFAULT_HIST_BINS + 1"
proof -
  have "length (entry_counts e) = DEFAULT_HIST_BINS + 1" if "entry_ok e" for e
    using that
    by (cases e) (auto simp: entry_ok_def entry_counts_def cstat_ok_def cfg_get_def
        split: option.splits)
  then have len: "\<forall>v \<in> set (map (\<lambda>kc. entry_counts (snd kc)) vs).
               length v = DEFAULT_HIST_BINS + 1"
    using assms by auto
  have z: "length (zeros (DEFAULT_HIST_BINS + 1)) = DEFAULT_HIST_BINS + 1" by (simp add: zeros_def)
  from foldl_vec_add_sum [OF z len] show "sum_list (vstat_counts vs) = vstat_count_total vs"
    by (simp add: vstat_counts_def vstat_count_total_def zeros_def comp_def sum_list_replicate)
  from foldl_vec_add_nth [OF z len] show "length (vstat_counts vs) = DEFAULT_HIST_BINS + 1"
    by (simp add: vstat_counts_def)
qed

lemma member_ok_counts:
  "member_ok tmp_dir w pop n i \<Longrightarrow>
     sum_list (vstat_counts (member_vstat tmp_dir w i)) = vstat_count_total (member_vstat tmp_dir w i)
     \<and> length (vstat_counts (member_vstat tmp_dir w i)) = DEFAULT_HIST_BINS + 1"
proof -
  assume "member_ok tmp_dir w pop n i"
  then have "\<forall>kc \<in> set (member_vstat tmp_dir w i). entry_ok (snd kc)"
    by (auto simp: member_ok_def member_vstat_def split: option.splits)
  from vstat_counts_total [OF this] show ?thesis by simp
qed

lemma aggregate_total:
  assumes inv: "poller_inv pop p" and ok: "\<forall>i \<in> set ids. member_ok tmp_dir w pop (nstruct (hss p)) i"
  shows "sum_list (foldl vec_add (s_counts (summary_data p))
                     (map (\<lambda>i. vstat_counts (member_vstat tmp_dir w i)) ids))
         = sum_list (s_counts (summary_data p))
           + sum_list (map (\<lambda>i. vstat_count_total (member_vstat tmp_dir w i)) ids)"
proof -
  have a: "length (s_counts (summary_data p)) = DEFAULT_HIST_BINS + 1"
    using inv by (simp add: poller_inv_def summary_inv_def)
  have len: "\<forall>v \<in> set (map (\<lambda>i. vstat_counts (member_vstat tmp_dir w i)) ids).
               length v = DEFAULT_HIST_BINS + 1"
    using ok member_ok_counts by auto
  have "map (\<lambda>i. sum_list (vstat_counts (member_vstat tmp_dir w i))) ids
        = map (\<lambda>i. vstat_count_total (member_vstat tmp_dir w i)) ids"
    using ok member_ok_counts by (intro map_cong) auto
  with foldl_vec_add_sum [OF a len] show ?thesis by (simp add: comp_def)
qed

lemma aggregate_any_order:
  assumes inv: "poller_inv pop p" and ok: "\<forall>i \<in> set ids. member_ok tmp_dir w pop (nstruct (hss p)) i"
    and perm: "mset ids' = mset ids" and q: "aggregate tmp_dir w ids p = Done q"
  shows "\<exists>q'. aggregate tmp_dir w ids' p = Done q'
           \<and> s_n_imposed (summary_data q') = s_n_imposed (summary_data q)
           \<and> s_n_violations (summary_data q') = s_n_violations (summary_data q)
           \<and> s_counts (summary_data q') = s_counts (summary_data q)"
proof -
  from perm have "set ids' = set ids" by (metis set_mset_mset)
  with ok have ok': "\<forall>i \<in> set ids'. member_ok tmp_dir w pop (nstruct (hss p)) i" by simp
  have a: "length (s_counts (summary_data p)) = DEFAULT_HIST_BINS + 1"
    using inv by (simp add: poller_inv_def summary_inv_def)
  have len: "\<forall>i \<in> set ids'. length (vstat_counts (member_vstat tmp_dir w i)) = DEFAULT_HIST_BINS + 1"
    using ok' member_ok_counts by blast
  from aggregate_ok [OF inv ok] q aggregate_ok [OF inv ok']
  show ?thesis
    using sum_list_map_mset_cong [OF perm, of "\<lambda>i. vstat_n_imposed (member_vstat tmp_dir w i)"]
      sum_list_map_mset_cong [OF perm, of "\<lambda>i. vstat_n_violations (member_vstat tmp_dir w i)"]
      foldl_vec_add_perm [OF perm a len]
    by auto
qed

lemma setup_poller_inv:
  assumes "stores w (structure_output cfg @ ''.T'') = Some f" "length (struct_crd f) = nstruct f"
  shows "\<exists>p. setup_poller cfg True w = Inr p \<and> poller_inv (population_size cfg) p \<and> hss p = f
           \<and> s_n_imposed (summary_data p) = 0 \<and> s_n_violations (summary_data p) = 0
           \<and> s_counts (summary_data p) = zeros (DEFAULT_HIST_BINS + 1)"
  using assms
  by (simp add: setup_poller_def poller_inv_def summary_inv_def zeros_def buckets_ok_def)

lemma then_do_Raised_iff:
  "then_do r f = Raised e q \<longleftrightarrow> (r = Raised e q \<or> (\<exists>s. r = Done s \<and> f s = Raised e q))"
  by (cases r) auto

lemma violation_score_of_total:
  "violation_score_of tv tr = Inr (if tr = 0 then 0 else tv / tr)"
  by (simp add: violation_score_of_def py_truediv_def)

lemma teardown_poller_Done:
  "hss_open p \<Longrightarrow> hss_writable p \<Longrightarrow>
    \<exists>q. teardown_poller p = Done q \<and> \<not> hss_open q
      \<and> violation (hss q) = (if s_n_imposed (summary_data p) = 0 then 0
             else s_n_violations (summary_data p) / s_n_imposed (summary_data p))"
  by (simp add: teardown_poller_def violation_score_of_total store_write_def)

lemma scenario_names:
  "hms_name ''tmp'' 0 = ''tmp/mstep_0.hms''" "hms_name ''tmp'' 1 = ''tmp/mstep_1.hms''"
  "hms_name ''tmp'' 2 = ''tmp/mstep_2.hms''" "hms_name ''tmp'' 3 = ''tmp/mstep_3.hms''"
  "hms_name ''tmp'' (Suc 0) = ''tmp/mstep_1.hms''"
  by (simp_all add: hms_name_def path_join_def str_nat.simps)

lemma scenario_member_ok:
  "i \<in> {0, 1, 2, 3} \<Longrightarrow> member_ok ''tmp'' scenario_world 4 4 i"
  by (auto simp: member_ok_def scenario_world_def scenario_names scenario_member_def loaded_vstat_def
      entry_ok_def cstat_ok_def DEFAULT_HIST_BINS_def)

lemma scenario_stats:
  "map (\<lambda>i. vstat_n_imposed (member_vstat ''tmp'' scenario_world i)) [0, 1, 2, 3] = [10, 10, 10, 10]"
  "map (\<lambda>i. vstat_n_violations (member_vstat ''tmp'' scenario_world i)) [0, 1, 2, 3] = [0, 0, 0, 2]"
  by (simp_all add: member_vstat_def scenario_world_def scenario_names scenario_member_def
      loaded_vstat_def vstat_n_imposed_def vstat_n_violations_def entry_n_imposed_def
      entry_n_violations_def cfg_get_def)

lemma scenario_result:
  "\<exists>p q r. setup_poller scenario_cfg True scenario_world = Inr p
     \<and> aggregate ''tmp'' scenario_world [0, 1, 2, 3] p = Done q
     \<and> s_n_imposed (summary_data q) = 40 \<and> s_n_violations (summary_data q) = 2
     \<and> teardown_poller q = Done r \<and> violation (hss r) = 1 / 20"
proof -
  have "stores scenario_world (structure_output scenario_cfg @ ''.T'')
        = Some \<lparr>nstruct = 4, nbead = 1, struct_crd = replicate 4 [], violation = 0,
                  summary_dataset = None\<rparr>"
    by (simp add: scenario_world_def scenario_cfg_def)
  from setup_poller_inv [OF this] obtain p where p: "setup_poller scenario_cfg True scenario_world = Inr p"
    "poller_inv 4 p" "nstruct (hss p) = 4"
    "s_n_imposed (summary_data p) = 0" "s_n_violations (summary_data p) = 0"
    by (auto simp: scenario_cfg_def)
  have ok: "\<forall>i \<in> set [0, 1, 2, 3]. member_ok ''tmp'' scenario_world 4 (nstruct (hss p)) i"
    using scenario_member_ok p(3) by simp
  from aggregate_ok [OF p(2) ok] obtain q where q:
    "aggregate ''tmp'' scenario_world [0, 1, 2, 3] p = Done q" "poller_inv 4 q"
    "s_n_imposed (summary_data q) = 40" "s_n_violations (summary_data q) = 2"
    using p(4,5) scenario_stats by auto
  from q(2) have "hss_open q" "hss_writable q" by (simp_all add: poller_inv_def)
  from teardown_poller_Done [OF this] obtain r where
    "teardown_poller q = Done r" "violation (hss r) = 1 / 20"
    using q(3,4) by auto
  with p(1) q(1,3,4) show ?thesis by blast
qed

section \<open>The claims about the aggregator\<close>

text \<open>
  C1. \<open>teardown_poller\<close> never raises on the division: with no imposed restraints the
  score is 0, otherwise it is the quotient of the two totals of the running summary,
  whatever sequence of member records produced them. The score and the summary are what
  a teardown that runs to its end has written into the store, and it does run to its end
  whenever the handle is open and the storage takes the writes.
\<close>

theorem teardown_poller_violation_score:
  "(\<forall>e q. teardown_poller p = Raised e q \<longrightarrow> e \<noteq> ZeroDivisionError)
   \<and> (\<forall>q. teardown_poller p = Done q \<longrightarrow>
          violation (hss q) =
            (if s_n_imposed (summary_data p) = 0 then 0
             else s_n_violations (summary_data p) / s_n_imposed (summary_data p))
          \<and> summary_dataset (hss q) = Some (summary_data p))
   \<and> (hss_open p \<and> hss_writable p \<longrightarrow> (\<exists>q. teardown_poller p = Done q))"
  by (auto simp: teardown_poller_def violation_score_of_total store_write_def
      then_do_Done_iff then_do_Raised_iff split: if_splits)

theorem teardown_poller_violation_score_witness:
  "\<exists>q. teardown_poller example_poller = Done q \<and> violation (hss q) = 1 / 20"
proof -
  have "hss_open example_poller \<and> hss_writable example_poller" by (simp add: example_poller_def)
  with teardown_poller_violation_score [of example_poller]
  obtain q where q: "teardown_poller example_poller = Done q" by blast
  with teardown_poller_violation_score [of example_poller]
  have "violation (hss q) =
            (if s_n_imposed (summary_data example_poller) = 0 then 0
             else s_n_violations (summary_data example_poller) / s_n_imposed (summary_data example_poller))"
    by blast
  then have "violation (hss q) = 1 / 20" by (simp add: example_poller_def)
  with q show ?thesis by blast
qed

text \<open>
  C2. For members whose histograms have the aggregate's shape, one \<open>set_structure\<close>
  call per member succeeds for every member, and the aggregate grows by exactly the sums
  of what the members report: imposed restraints, violations, and the total count of the
  histogram. Processing the members in any other order gives the same totals and the same
  histogram. In the scenario of four members the totals are 40 and 2 and the score written
  by teardown is 1/20.
\<close>

theorem aggregate_sums_any_order:
  "(poller_inv pop p \<and> (\<forall>i \<in> set ids. member_ok tmp_dir w pop (nstruct (hss p)) i) \<longrightarrow>
     (\<exists>q. aggregate tmp_dir w ids p = Done q
        \<and> s_n_imposed (summary_data q)
           = s_n_imposed (summary_data p)
             + sum_list (map (\<lambda>i. vstat_n_imposed (member_vstat tmp_dir w i)) ids)
        \<and> s_n_violations (summary_data q)
           = s_n_violations (summary_data p)
             + sum_list (map (\<lambda>i. vstat_n_violations (member_vstat tmp_dir w i)) ids)
        \<and> sum_list (s_counts (summary_data q))
           = sum_list (s_counts (summary_data p))
             + sum_list (map (\<lambda>i. vstat_count_total (member_vstat tmp_dir w i)) ids)
        \<and> (\<forall>ids'. mset ids' = mset ids \<longrightarrow>
              (\<exists>q'. aggregate tmp_dir w ids' p = Done q'
                 \<and> s_n_imposed (summary_data q') = s_n_imposed (summary_data q)
                 \<and> s_n_violations (summary_data q') = s_n_violations (summary_data q)
                 \<and> s_counts (summary_data q') = s_counts (summary_data q)))))
   \<and> (\<exists>p0 q r. setup_poller scenario_cfg True scenario_world = Inr p0
        \<and> aggregate ''tmp'' scenario_world [0, 1, 2, 3] p0 = Done q
        \<and> s_n_imposed (summary_data q) = 40 \<and> s_n_violations (summary_data q) = 2
        \<and> teardown_poller q = Done r \<and> violation (hss r) = 1 / 20)"
proof (intro conjI impI)
  assume a: "poller_inv pop p \<and> (\<forall>i \<in> set ids. member_ok tmp_dir w pop (nstruct (hss p)) i)"
  then have inv: "poller_inv pop p"
    and ok: "\<forall>i \<in> set ids. member_ok tmp_dir w pop (nstruct (hss p)) i" by simp_all
  from aggregate_ok [OF inv ok] obtain q where q: "aggregate tmp_dir w ids p = Done q"
    "s_n_imposed (summary_data q)
       = s_n_imposed (summary_data p)
         + sum_list (map (\<lambda>i. vstat_n_imposed (member_vstat tmp_dir w i)) ids)"
    "s_n_violations (summary_data q)
       = s_n_violations (summary_data p)
         + sum_list (map (\<lambda>i. vstat_n_violations (member_vstat tmp_dir w i)) ids)"
    "s_counts (summary_data q)
       = foldl vec_add (s_counts (summary_data p))
           (map (\<lambda>i. vstat_counts (member_vstat tmp_dir w i)) ids)"
    by blast
  have total: "sum_list (s_counts (summary_data q))
           = sum_list (s_counts (summary_data p))
             + sum_list (map (\<lambda>i. vstat_count_total (member_vstat tmp_dir w i)) ids)"
    using aggregate_total [OF inv ok] q(4) by simp
  have order: "\<forall>ids'. mset ids' = mset ids \<longrightarrow>
              (\<exists>q'. aggregate tmp_dir w ids' p = Done q'
                 \<and> s_n_imposed (summary_data q') = s_n_imposed (summary_data q)
                 \<and> s_n_violations (summary_data q') = s_n_violations (summary_data q)
                 \<and> s_counts (summary_data q') = s_counts (summary_data q))"
    using aggregate_any_order [OF inv ok _ q(1)] by blast
  show "\<exists>q. aggregate tmp_dir w ids p = Done q
        \<and> s_n_imposed (summary_data q)
           = s_n_imposed (summary_data p)
             + sum_list (map (\<lambda>i. vstat_n_imposed (member_vstat tmp_dir w i)) ids)
        \<and> s_n_violations (summary_data q)
           = s_n_violations (summary_data p)
             + sum_list (map (\<lambda>i. vstat_n_violations (member_vstat tmp_dir w i)) ids)
        \<and> sum_list (s_counts (summary_data q))
           = sum_list (s_counts (summary_data p))
             + sum_list (map (\<lambda>i. vstat_count_total (member_vstat tmp_dir w i)) ids)
        \<and> (\<forall>ids'. mset ids' = mset ids \<longrightarrow>
              (\<exists>q'. aggregate tmp_dir w ids' p = Done q'
                 \<and> s_n_imposed (summary_data q') = s_n_imposed (summary_data q)
                 \<and> s_n_violations (summary_data q') = s_n_violations (summary_data q)
                 \<and> s_counts (summary_data q') = s_counts (summary_data q)))"
    using q(1,2,3) total order by blast
next
  show "\<exists>p0 q r. setup_poller scenario_cfg True scenario_world = Inr p0
        \<and> aggregate ''tmp'' scenario_world [0, 1, 2, 3] p0 = Done q
        \<and> s_n_imposed (summary_data q) = 40 \<and> s_n_violations (summary_data q) = 2
        \<and> teardown_poller q = Done r \<and> violation (hss r) = 1 / 20"
    by (rule scenario_result)
qed

theorem aggregate_sums_any_order_witness:
  "\<exists>p q. setup_poller scenario_cfg True scenario_world = Inr p
     \<and> aggregate ''tmp'' scenario_world [3, 1, 0, 2] p = Done q
     \<and> s_n_imposed (summary_data q) = 40 \<and> s_n_violations (summary_data q) = 2
     \<and> sum_list (s_counts (summary_data q)) = 40"
proof -
  have "stores scenario_world (structure_output scenario_cfg @ ''.T'')
        = Some \<lparr>nstruct = 4, nbead = 1, struct_crd = replicate 4 [], violation = 0,
                  summary_dataset = None\<rparr>"
    by (simp add: scenario_world_def scenario_cfg_def)
  from setup_poller_inv [OF this] obtain p where p: "setup_poller scenario_cfg True scenario_world = Inr p"
    "poller_inv 4 p" "nstruct (hss p) = 4"
    "s_n_imposed (summary_data p) = 0" "s_n_violations (summary_data p) = 0"
    "s_counts (summary_data p) = zeros (DEFAULT_HIST_BINS + 1)"
    by (auto simp: scenario_cfg_def)
  have ok: "\<forall>i \<in> set [0, 1, 2, 3]. member_ok ''tmp'' scenario_world 4 (nstruct (hss p)) i"
    using scenario_member_ok p(3) by simp
  have perm: "mset [3, 1, 0, 2] = mset [0, 1, 2, 3::nat]" by simp
  from aggregate_sums_any_order [of 4 p "[0, 1, 2, 3]" "''tmp''" scenario_world] p(2) ok
  obtain q where q: "aggregate ''tmp'' scenario_world [0, 1, 2, 3] p = Done q"
    "s_n_imposed (summary_data q)
       = s_n_imposed (summary_data p)
         + sum_list (map (\<lambda>i. vstat_n_imposed (member_vstat ''tmp'' scenario_world i)) [0, 1, 2, 3])"
    "s_n_violations (summary_data q)
       = s_n_violations (summary_data p)
         + sum_list (map (\<lambda>i. vstat_n_violations (member_vstat ''tmp'' scenario_world i)) [0, 1, 2, 3])"
    "sum_list (s_counts (summary_data q))
       = sum_list (s_counts (summary_data p))
         + sum_list (map (\<lambda>i. vstat_count_total (member_vstat ''tmp'' scenario_world i)) [0, 1, 2, 3])"
    "\<forall>ids'. mset ids' = mset [0, 1, 2, 3] \<longrightarrow>
       (\<exists>q'. aggregate ''tmp'' scenario_world ids' p = Done q'
          \<and> s_n_imposed (summary_data q') = s_n_imposed (summary_data q)
          \<and> s_n_violations (summary_data q') = s_n_violations (summary_data q)
          \<and> s_counts (summary_data q') = s_counts (summary_data q))"
    by blast
  from q(5) perm obtain q' where q': "aggregate ''tmp'' scenario_world [3, 1, 0, 2] p = Done q'"
    "s_n_imposed (summary_data q') = s_n_imposed (summary_data q)"
    "s_n_violations (summary_data q') = s_n_violations (summary_data q)"
    "s_counts (summary_data q') = s_counts (summary_data q)" by blast
  have tot: "map (\<lambda>i. vstat_count_total (member_vstat ''tmp'' scenario_world i)) [0, 1, 2, 3]
             = [10, 10, 10, 10]"
    by (simp add: member_vstat_def scenario_world_def scenario_names scenario_member_def
      loaded_vstat_def vstat_count_total_def entry_counts_def cfg_get_def sum_list_replicate)
  have "s_n_imposed (summary_data q') = 40" "s_n_violations (summary_data q') = 2"
    "sum_list (s_counts (summary_data q')) = 40"
    using q(2,3,4) q'(2,3,4) p(4,5,6) scenario_stats tot
    by (simp_all add: zeros_def sum_list_replicate)
  with p(1) q'(1) show ?thesis by blast
qed

section \<open>Damaged statistics and the store handle\<close>

lemma then_do_preserves:
  assumes "g (state_of r) = c" "\<And>s. g s = c \<Longrightarrow> g (state_of (f s)) = c"
  shows "g (state_of (then_do r f)) = c"
  using assms by (cases r) auto

lemma on_summary_state:
  "summary_data (state_of (on_summary f p)) = state_of (f (summary_data p))"
  "hss_open (state_of (on_summary f p)) = hss_open p"
  "hss (state_of (on_summary f p)) = hss p"
  by (auto simp: on_summary_def split: outcome.splits)

lemma store_write_state:
  "summary_data (state_of (store_write f p)) = summary_data p"
  "hss_open (state_of (store_write f p)) = hss_open p"
  by (auto simp: store_write_def split: sum.splits)

lemma length_zeros: "length (zeros n) = n"
  by (simp add: zeros_def)

lemma vec_add_zeros: "length a = n \<Longrightarrow> map2 (+) a (zeros n) = a"
  by (auto simp: zeros_def intro!: nth_equalityI)

lemma collect_violation_stats_empty:
  "length (s_counts sd) = DEFAULT_HIST_BINS + 1 \<Longrightarrow>
     totals (state_of (collect_violation_stats i [] sd)) = totals sd"
  by (auto simp: collect_violation_stats_def np_iadd_same length_zeros Let_def totals_def
      vec_add_zeros split: sum.splits)

lemma collect_loaded_Some:
  "loaded_vstat d = Some v \<Longrightarrow> collect_loaded i d = collect_violation_stats i v"
  by (rule ext) (simp add: collect_loaded_def)

lemma collect_ignores_stats:
  "collect_energies i (f\<lparr>violation_stats := v\<rparr>) = collect_energies i f"
  "collect_thermo i n (f\<lparr>violation_stats := v\<rparr>) = collect_thermo i n f"
  by (rule ext, simp add: collect_energies_def collect_thermo_def)+

lemma collect_energies_totals: "totals (state_of (collect_energies i hms sd)) = totals sd"
  by (auto simp: collect_energies_def Let_def totals_def split: option.splits sum.splits)

lemma collect_thermo_totals: "totals (state_of (collect_thermo i n hms sd)) = totals sd"
  by (auto simp: collect_thermo_def totals_def split: option.splits outcome.splits)

lemma set_structure_empty_totals:
  assumes f: "results w (hms_name tmp_dir i) = Some f"
    and e: "loaded_vstat (violation_stats f) = Some []"
    and len: "length (s_counts (summary_data p)) = DEFAULT_HIST_BINS + 1"
  shows "totals (summary_data (state_of (set_structure tmp_dir w i p))) = totals (summary_data p)"
proof -
  let ?g = "\<lambda>q. totals (summary_data q)"
  have len': "length (s_counts (summary_data s)) = DEFAULT_HIST_BINS + 1"
    if "?g s = ?g p" for s using that len by (simp add: totals_def)
  have 1: "?g (state_of (set_struct_crd i (coordinates f) p)) = ?g p"
    by (simp add: set_struct_crd_def store_write_state)
  have 2: "?g (state_of (then_do (set_struct_crd i (coordinates f) p)
              (on_summary (collect_violation_stats i [])))) = ?g p"
    using 1 by (rule then_do_preserves)
       (simp add: on_summary_state collect_violation_stats_empty len')
  have 3: "?g (state_of (then_do (then_do (set_struct_crd i (coordinates f) p)
              (on_summary (collect_violation_stats i []))) (on_summary (collect_energies i f)))) = ?g p"
    using 2 by (rule then_do_preserves) (simp add: on_summary_state collect_energies_totals)
  have 4: "?g (state_of (then_do (then_do (then_do (set_struct_crd i (coordinates f) p)
              (on_summary (collect_violation_stats i []))) (on_summary (collect_energies i f)))
              (\<lambda>q. on_summary (collect_thermo i (nstruct (hss q)) f) q))) = ?g p"
    using 3 by (rule then_do_preserves) (simp add: on_summary_state collect_thermo_totals)
  show ?thesis using 4 f by (simp add: set_structure_def collect_loaded_Some [OF e])
qed

lemma example_poller_inv: "poller_inv 4 example_poller"
  by (simp add: poller_inv_def example_poller_def summary_inv_def length_zeros buckets_ok_def)

lemma set_structure_keeps_handle:
  "hss_open (state_of (set_structure tmp_dir w i p)) = hss_open p"
proof (cases "results w (hms_name tmp_dir i)")
  case None
  then show ?thesis by (simp add: set_structure_def)
next
  case (Some f)
  have 1: "hss_open (state_of (set_struct_crd i (coordinates f) p)) = hss_open p"
    by (simp add: set_struct_crd_def store_write_state)
  have 2: "hss_open (state_of (then_do (set_struct_crd i (coordinates f) p)
              (on_summary (collect_loaded i (violation_stats f))))) = hss_open p"
    using 1 by (rule then_do_preserves) (simp add: on_summary_state)
  have 3: "hss_open (state_of (then_do (then_do (set_struct_crd i (coordinates f) p)
              (on_summary (collect_loaded i (violation_stats f))))
              (on_summary (collect_energies i f)))) = hss_open p"
    using 2 by (rule then_do_preserves) (simp add: on_summary_state)
  have 4: "hss_open (state_of (then_do (then_do (then_do (set_struct_crd i (coordinates f) p)
              (on_summary (collect_loaded i (violation_stats f))))
              (on_summary (collect_energies i f)))
              (\<lambda>q. on_summary (collect_thermo i (nstruct (hss q)) f) q))) = hss_open p"
    using 3 by (rule then_do_preserves) (simp add: on_summary_state)
  show ?thesis using 4 Some by (simp add: set_structure_def)
qed

lemma aggregate_keeps_handle:
  "hss_open (state_of (aggregate tmp_dir w ids p)) = hss_open p"
proof (induction ids arbitrary: p)
  case Nil
  then show ?case by simp
next
  case (Cons i ids)
  show ?case
  proof (cases "set_structure tmp_dir w i p")
    case (Done q)
    with set_structure_keeps_handle [of tmp_dir w i p] have "hss_open q = hss_open p" by simp
    with Done Cons.IH [of q] show ?thesis by simp
  next
    case (Raised e q)
    with set_structure_keeps_handle [of tmp_dir w i p] show ?thesis by simp
  qed
qed

text \<open>
  C7, as the code has it. A member file whose statistics dataset is absent or does not
  parse (\<open>json.loads\<close> raises) is handled exactly as one with the empty record \<open>{}\<close>:
  the outcome of \<open>set_structure\<close> is the same. The three global totals of the summary
  stay as they were, and the call runs to its end whenever the rest of the file and the
  poller state allow it (member id inside the arrays and the store, store open and
  writable, a \<open>thermo\<close> entry in the optimization info if there is one).
\<close>

theorem set_structure_tolerates_missing_stats:
  assumes f: "results w (hms_name tmp_dir i) = Some f"
    and bad: "violation_stats f = Absent \<or> violation_stats f = Unparseable"
  shows "set_structure tmp_dir w i p
           = set_structure tmp_dir
               (w\<lparr>results := (results w)(hms_name tmp_dir i \<mapsto> f\<lparr>violation_stats := Parsed []\<rparr>)\<rparr>) i p
         \<and> (length (s_counts (summary_data p)) = DEFAULT_HIST_BINS + 1 \<longrightarrow>
              s_n_imposed (summary_data (state_of (set_structure tmp_dir w i p)))
                = s_n_imposed (summary_data p)
              \<and> s_n_violations (summary_data (state_of (set_structure tmp_dir w i p)))
                = s_n_violations (summary_data p)
              \<and> s_counts (summary_data (state_of (set_structure tmp_dir w i p)))
                = s_counts (summary_data p))
         \<and> (poller_inv pop p \<and> i < pop \<and> i < nstruct (hss p)
              \<and> (case opt_info_dict f of None \<Rightarrow> True | Some d \<Rightarrow> oi_thermo d \<noteq> None) \<longrightarrow>
              (\<exists>q. set_structure tmp_dir w i p = Done q))"
proof (intro conjI impI)
  from bad have e: "loaded_vstat (violation_stats f) = Some []" by (auto simp: loaded_vstat_def)
  have e': "loaded_vstat (Parsed []) = Some []" by (simp add: loaded_vstat_def)
  show "set_structure tmp_dir w i p
           = set_structure tmp_dir
               (w\<lparr>results := (results w)(hms_name tmp_dir i \<mapsto> f\<lparr>violation_stats := Parsed []\<rparr>)\<rparr>) i p"
    using f
    by (simp add: set_structure_def collect_loaded_Some [OF e] collect_loaded_Some [OF e']
        collect_ignores_stats)
  {
    assume "length (s_counts (summary_data p)) = DEFAULT_HIST_BINS + 1"
    from set_structure_empty_totals [OF f e this]
    show "s_n_imposed (summary_data (state_of (set_structure tmp_dir w i p)))
                = s_n_imposed (summary_data p)"
      and "s_n_violations (summary_data (state_of (set_structure tmp_dir w i p)))
                = s_n_violations (summary_data p)"
      and "s_counts (summary_data (state_of (set_structure tmp_dir w i p)))
                = s_counts (summary_data p)"
      by (simp_all add: totals_def)
  }
  assume a: "poller_inv pop p \<and> i < pop \<and> i < nstruct (hss p)
              \<and> (case opt_info_dict f of None \<Rightarrow> True | Some d \<Rightarrow> oi_thermo d \<noteq> None)"
  then have "member_ok tmp_dir w pop (nstruct (hss p)) i"
    using f e by (simp add: member_ok_def)
  with a set_structure_ok [of pop p tmp_dir w i]
  show "\<exists>q. set_structure tmp_dir w i p = Done q" by blast
qed


theorem set_structure_tolerates_missing_stats_witness:
  "\<exists>q. set_structure ''tmp'' damaged_world 3 example_poller = Done q
     \<and> s_n_imposed (summary_data q) = 40 \<and> s_n_violations (summary_data q) = 2"
proof -
  let ?f = "(scenario_member 2)\<lparr>violation_stats := Unparseable\<rparr>"
  have f: "results damaged_world (hms_name ''tmp'' 3) = Some ?f"
    by (simp add: damaged_world_def)
  have bad: "violation_stats ?f = Absent \<or> violation_stats ?f = Unparseable" by simp
  have pre: "poller_inv 4 example_poller \<and> 3 < (4::nat) \<and> 3 < nstruct (hss example_poller)
     \<and> (case opt_info_dict ?f of None \<Rightarrow> True | Some d \<Rightarrow> oi_thermo d \<noteq> None)"
    using example_poller_inv by (simp add: example_poller_def scenario_member_def)
  have len: "length (s_counts (summary_data example_poller)) = DEFAULT_HIST_BINS + 1"
    by (simp add: example_poller_def length_zeros)
  note T = set_structure_tolerates_missing_stats [OF f bad, of example_poller 4]
  from T pre obtain q where q: "set_structure ''tmp'' damaged_world 3 example_poller = Done q"
    by blast
  from T len have "s_n_imposed (summary_data (state_of (set_structure ''tmp'' damaged_world 3 example_poller)))
                = s_n_imposed (summary_data example_poller)"
     "s_n_violations (summary_data (state_of (set_structure ''tmp'' damaged_world 3 example_poller)))
                = s_n_violations (summary_data example_poller)"
    by blast+
  with q show ?thesis by (simp add: example_poller_def)
qed

text \<open>
  The claim as stated fails for a damaged record that still parses: the \<open>try\<close> covers
  \<open>json.loads\<close> only, and a record that has lost its \<open>histogram\<close> key makes
  \<open>set_structure\<close> raise KeyError in the loop.
\<close>

theorem set_structure_fails_on_keyless_record:
  "error_of (set_structure ''tmp'' keyless_world 3 example_poller) = Some KeyError"
  by (simp add: set_structure_def keyless_world_def example_poller_def set_struct_crd_def
      store_write_def on_summary_def collect_loaded_def loaded_vstat_def collect_violation_stats_def
      stat_entry_step_def stat_step_def Let_def ensure_bucket_def)

text \<open>
  C9, as the code has it. The handle is closed by a teardown that runs to its end, and
  only by that: \<open>set_structure\<close> and a whole series of callbacks leave the handle as it
  was, whether they raise or not, and a teardown that raises (a write through the handle
  failed) leaves it as it was too. Nothing in the three callbacks releases the handle on
  an exit by exception.
\<close>

theorem handle_closed_by_completed_teardown:
  "(\<forall>q. teardown_poller p = Done q \<longrightarrow> \<not> hss_open q)
   \<and> (\<forall>e q. teardown_poller p = Raised e q \<longrightarrow> hss_open q = hss_open p)
   \<and> hss_open (state_of (set_structure tmp_dir w i p)) = hss_open p
   \<and> hss_open (state_of (aggregate tmp_dir w ids p)) = hss_open p"
proof -
  have "\<forall>q. teardown_poller p = Done q \<longrightarrow> \<not> hss_open q"
    by (auto simp: teardown_poller_def violation_score_of_total then_do_Done_iff)
  moreover have "\<forall>e q. teardown_poller p = Raised e q \<longrightarrow> hss_open q = hss_open p"
    by (auto simp: teardown_poller_def violation_score_of_total then_do_Raised_iff store_write_def
        split: if_splits)
  ultimately show ?thesis
    using set_structure_keeps_handle aggregate_keeps_handle by blast
qed

theorem handle_closed_by_completed_teardown_witness:
  "\<exists>q. teardown_poller example_poller = Done q \<and> \<not> hss_open q"
proof -
  have "hss_open example_poller" "hss_writable example_poller" by (simp_all add: example_poller_def)
  from teardown_poller_Done [OF this] obtain q where q: "teardown_poller example_poller = Done q"
    by blast
  with handle_closed_by_completed_teardown [of example_poller] have "\<not> hss_open q" by blast
  with q show ?thesis by blast
qed

text \<open>The claim as stated fails: on a storage that refuses writes, teardown raises with
  the handle still open.\<close>

theorem teardown_raise_leaves_handle_open:
  "hss_open faulty_poller
   \<and> teardown_poller faulty_poller = Raised IOError faulty_poller
   \<and> hss_open (state_of (teardown_poller faulty_poller))"
  by (simp add: faulty_poller_def example_poller_def teardown_poller_def violation_score_of_total
      store_write_def)

section \<open>Properties of the task\<close>

lemma digit_inj:
  "a < 10 \<Longrightarrow> b < 10 \<Longrightarrow> ''0123456789'' ! a = ''0123456789'' ! b \<Longrightarrow> a = b"
proof -
  assume a: "a < 10" and b: "b < 10" and e: "''0123456789'' ! a = ''0123456789'' ! b"
  have d: "distinct ''0123456789''" by simp
  have "a < length ''0123456789''" "b < length ''0123456789''" using a b by simp_all
  with d e show "a = b" by (simp only: nth_eq_iff_index_eq)
qed

lemma str_nat_nonempty: "str_nat n \<noteq> []"
  by (subst str_nat.simps) simp

lemma str_nat_small: "n < 10 \<Longrightarrow> str_nat n = [''0123456789'' ! n]"
  by (subst str_nat.simps) simp

lemma str_nat_large:
  "\<not> n < 10 \<Longrightarrow> str_nat n = str_nat (n div 10) @ [''0123456789'' ! (n mod 10)]"
  by (subst str_nat.simps) simp

lemma str_nat_inj: "str_nat n = str_nat m \<Longrightarrow> n = m"
proof (induction n arbitrary: m rule: str_nat.induct)
  case (1 n)
  show ?case
  proof (cases "n < 10")
    case True
    then have n: "str_nat n = [''0123456789'' ! n]" by (rule str_nat_small)
    have m: "m < 10"
    proof (rule ccontr)
      assume "\<not> m < 10"
      then have "str_nat m = str_nat (m div 10) @ [''0123456789'' ! (m mod 10)]"
        by (rule str_nat_large)
      with n "1.prems" str_nat_nonempty [of "m div 10"] show False by simp
    qed
    then have "str_nat m = [''0123456789'' ! m]" by (rule str_nat_small)
    with n "1.prems" have "''0123456789'' ! n = ''0123456789'' ! m" by simp
    with True m show ?thesis by (rule digit_inj)
  next
    case False
    then have n: "str_nat n = str_nat (n div 10) @ [''0123456789'' ! (n mod 10)]"
      by (rule str_nat_large)
    have m: "\<not> m < 10"
    proof
      assume "m < 10"
      then have "str_nat m = [''0123456789'' ! m]" by (rule str_nat_small)
      with n "1.prems" str_nat_nonempty [of "n div 10"] show False by simp
    qed
    then have "str_nat m = str_nat (m div 10) @ [''0123456789'' ! (m mod 10)]"
      by (rule str_nat_large)
    with n "1.prems" have e: "str_nat (n div 10) = str_nat (m div 10)"
      "''0123456789'' ! (n mod 10) = ''0123456789'' ! (m mod 10)" by simp_all
    from "1.IH" [OF False e(1)] have q: "n div 10 = m div 10" .
    have "n mod 10 = m mod 10" using e(2) by (intro digit_inj) simp_all
    with q show ?thesis by (metis div_mult_mod_eq)
  qed
qed

lemma readyfile_of_inj:
  "readyfile_of tmp_dir uid i = readyfile_of tmp_dir uid j \<Longrightarrow> i = j"
  by (cases uid) (auto simp: readyfile_of_def path_join_def dest: str_nat_inj split: if_splits)












text \<open>
  C4, evaluated on the code. The task calls \<open>get_violation_histogram\<close> with its defaults:
  100 interior bins over the range from 0 to 1, not up to \<open>DEFAULT_HIST_MAX\<close>. A ratio
  of one half is beyond \<open>DEFAULT_HIST_MAX\<close>, yet it is counted in interior bin 50 and the
  overflow bin stays empty; the last interior edge is 1. The count of violations is the
  count of ratios above the tolerance.
\<close>

theorem task_histogram_ignores_DEFAULT_HIST_MAX:
  "(case vstat_entry (1 / 100) half_restraint of
      Inl e \<Rightarrow> False
    | Inr kc \<Rightarrow>
        (case histogram_counts (snd kc) of
           None \<Rightarrow> False
         | Some H \<Rightarrow> length H = 101 \<and> H ! 50 = 1 \<and> H ! 100 = 0)
        \<and> histogram_edges (snd kc) ! 100 = Fin 1
        \<and> c_n_violations (snd kc) = Some 1 \<and> c_n_imposed (snd kc) = Some 1)
   \<and> f_gt (Fin (1 / 2)) (Fin DEFAULT_HIST_MAX)"
  by (simp add: vstat_entry_def restraint_ratios_def half_restraint_def
      get_violation_histogram_default_def get_violation_histogram_def np_histogram_def
      Let_def DEFAULT_HIST_BINS_def DEFAULT_HIST_MAX_def f_ge_def count_nonzero_def linspace_def
      nth_append del: upt_Suc)




text \<open>
  C6. With the member's marker present and no clean restart, the task returns at once and
  the world (result files, markers, stores) is what it was. So a task that has completed
  is a no-op when run again, whatever the model run or the storage would do the second time.
\<close>

theorem task_skip_is_noop:
  "(readyfile_of tmp_dir (cfg_get (step_hash cfg) ''xxxx'') i \<in> markers w
      \<and> \<not> cfg_get (clean_restart cfg) False \<longrightarrow>
      task i cfg tmp_dir run storage w = Done w)
   \<and> (\<forall>w'. task i cfg tmp_dir run storage w = Done w' \<and> \<not> cfg_get (clean_restart cfg) False \<longrightarrow>
        task i cfg tmp_dir run' storage' w' = Done w')"
proof (intro conjI impI allI)
  assume "readyfile_of tmp_dir (cfg_get (step_hash cfg) ''xxxx'') i \<in> markers w
      \<and> \<not> cfg_get (clean_restart cfg) False"
  then show "task i cfg tmp_dir run storage w = Done w" by (simp add: task_def Let_def)
next
  fix w' assume a: "task i cfg tmp_dir run storage w = Done w' \<and> \<not> cfg_get (clean_restart cfg) False"
  then have "readyfile_of tmp_dir (cfg_get (step_hash cfg) ''xxxx'') i \<in> markers w'"
    by (auto simp: task_def Let_def cfg_get_def split: if_splits option.splits sum.splits)
  with a show "task i cfg tmp_dir run' storage' w' = Done w'" by (simp add: task_def Let_def)
qed


theorem task_skip_is_noop_witness:
  "task 0 scenario_cfg ''tmp'' example_run (\<lambda>c. c)
       (task_world\<lparr>markers := {readyfile_of ''tmp'' ''step'' 0}\<rparr>)
     = Done (task_world\<lparr>markers := {readyfile_of ''tmp'' ''step'' 0}\<rparr>)"
proof -
  have "readyfile_of ''tmp'' (cfg_get (step_hash scenario_cfg) ''xxxx'') 0
          \<in> markers (task_world\<lparr>markers := {readyfile_of ''tmp'' ''step'' 0}\<rparr>)
        \<and> \<not> cfg_get (clean_restart scenario_cfg) False"
    by (simp add: scenario_cfg_def cfg_get_def)
  with task_skip_is_noop [of "''tmp''" scenario_cfg 0 "task_world\<lparr>markers := {readyfile_of ''tmp'' ''step'' 0}\<rparr>"
         example_run "\<lambda>c. c"]
  show ?thesis by blast
qed

section \<open>Properties of the poller and of reduce\<close>

lemma scan_split:
  "mset (map snd (fst (scan present out))) + mset (snd (scan present out)) = mset (map snd out)"
  by (induction out) (auto simp: scan_def)

lemma scan_outstanding_subset: "set (fst (scan present out)) \<subseteq> set out"
  by (auto simp: scan_def)

lemma scan_all_present: "fst ` set out \<subseteq> present \<Longrightarrow> fst (scan present out) = []"
  by (auto simp: scan_def filter_empty_conv)

lemma scan_calls_observed:
  "a \<in> set (snd (scan present out)) \<Longrightarrow> \<exists>f. (f, a) \<in> set out \<and> f \<in> present"
  by (auto simp: scan_def)

lemma watch_split:
  "mset (map snd (fst (watch obs out calls))) + mset (snd (watch obs out calls))
     = mset (map snd out) + mset calls"
proof (induction obs arbitrary: out calls)
  case Nil
  then show ?case by simp
next
  case (Cons present later)
  show ?case
  proof (cases "out = []")
    case True
    then show ?thesis by simp
  next
    case False
    have "mset (map snd (fst (scan present out))) + mset (calls @ snd (scan present out))
          = mset (map snd out) + mset calls"
      using scan_split [of present out] by (simp add: ac_simps)
    with Cons.IH [of "fst (scan present out)" "calls @ snd (scan present out)"] False
    show ?thesis by simp
  qed
qed

lemma watch_nothing_outstanding: "fst (watch obs [] calls) = []"
  by (cases obs) simp_all

lemma watch_completes:
  "\<exists>present \<in> set obs. fst ` set out \<subseteq> present \<Longrightarrow> fst (watch obs out calls) = []"
proof (induction obs arbitrary: out calls)
  case Nil
  then show ?case by simp
next
  case (Cons present later)
  show ?case
  proof (cases "out = []")
    case True
    then show ?thesis by simp
  next
    case False
    show ?thesis
    proof (cases "fst ` set out \<subseteq> present")
      case True
      then have "fst (scan present out) = []" by (rule scan_all_present)
      with False show ?thesis by (simp add: watch_nothing_outstanding)
    next
      case uncovered: False
      with Cons.prems obtain p where p: "p \<in> set later" "fst ` set out \<subseteq> p" by auto
      have "fst ` set (fst (scan present out)) \<subseteq> p"
        using p(2) scan_outstanding_subset [of present out] by blast
      with p(1) have "\<exists>q \<in> set later. fst ` set (fst (scan present out)) \<subseteq> q" by blast
      from Cons.IH [OF this] False show ?thesis by simp
    qed
  qed
qed

lemma watch_calls_observed:
  "a \<in> set (snd (watch obs out calls)) \<Longrightarrow>
     a \<in> set calls \<or> (\<exists>present \<in> set obs. \<exists>f. (f, a) \<in> set out \<and> f \<in> present)"
proof (induction obs arbitrary: out calls)
  case Nil
  then show ?case by simp
next
  case (Cons present later)
  show ?case
  proof (cases "out = []")
    case True
    with Cons.prems show ?thesis by simp
  next
    case False
    with Cons.prems have "a \<in> set (snd (watch later (fst (scan present out)) (calls @ snd (scan present out))))"
      by simp
    from Cons.IH [OF this] consider "a \<in> set calls" | "a \<in> set (snd (scan present out))"
      | "\<exists>p \<in> set later. \<exists>f. (f, a) \<in> set (fst (scan present out)) \<and> f \<in> p"
      by auto
    then show ?thesis
    proof cases
      case 1
      then show ?thesis by simp
    next
      case 2
      from scan_calls_observed [OF this] show ?thesis by auto
    next
      case 3
      then obtain p f where "p \<in> set later" "(f, a) \<in> set (fst (scan present out))" "f \<in> p"
        by blast
      with scan_outstanding_subset [of present out] have "p \<in> set (present # later)"
        "(f, a) \<in> set out" "f \<in> p" by auto
      then show ?thesis by blast
    qed
  qed
qed

lemma poller_args_distinct: "distinct (poller_args cfg)"
  by (simp add: poller_args_def argument_list_def distinct_map inj_on_def)

lemma watch_keeps_calls: "set calls \<subseteq> set (snd (watch obs out calls))"
proof (induction obs arbitrary: out calls)
  case Nil
  then show ?case by simp
next
  case (Cons present later)
  show ?case
  proof (cases "out = []")
    case True
    then show ?thesis by simp
  next
    case False
    with Cons.IH [of "calls @ snd (scan present out)" "fst (scan present out)"]
    show ?thesis by auto
  qed
qed

lemma watch_delivers:
  "(f, a) \<in> set out \<Longrightarrow> present \<in> set obs \<Longrightarrow> f \<in> present \<Longrightarrow>
     a \<in> set (snd (watch obs out calls))"
proof (induction obs arbitrary: out calls)
  case Nil
  then show ?case by simp
next
  case (Cons p later)
  from Cons.prems(1) have ne: "out \<noteq> []" by auto
  show ?case
  proof (cases "f \<in> p")
    case True
    with Cons.prems(1) have "a \<in> set (snd (scan p out))" by (force simp: scan_def)
    then have "a \<in> set (calls @ snd (scan p out))" by simp
    with watch_keeps_calls [of "calls @ snd (scan p out)" later "fst (scan p out)"] ne
    show ?thesis by auto
  next
    case False
    with Cons.prems have later: "present \<in> set later" by auto
    from False Cons.prems(1) have "(f, a) \<in> set (fst (scan p out))" by (simp add: scan_def)
    from Cons.IH [OF this later Cons.prems(3)] ne show ?thesis by simp
  qed
qed

lemma distinct_count_one: "distinct xs \<Longrightarrow> x \<in> set xs \<Longrightarrow> count_list xs x = 1"
  by (induction xs) (auto simp: count_list_0_iff)

lemma poller_delivers_observed:
  assumes "i < population_size cfg" "present \<in> set obs" "readyfile_of tmp_dir uid i \<in> present"
  shows "[i] \<in> set (snd (run_poller cfg tmp_dir uid obs))"
proof -
  have "zip (poller_files cfg tmp_dir uid) (poller_args cfg)
        = map (\<lambda>k. (readyfile_of tmp_dir uid k, [k])) [0..<population_size cfg]"
    by (simp add: poller_files_def poller_args_def argument_list_def zip_map_map zip_same_conv_map)
  then have "(readyfile_of tmp_dir uid i, [i]) \<in> set (zip (poller_files cfg tmp_dir uid) (poller_args cfg))"
    using assms(1) by auto
  from watch_delivers [OF this assms(2,3)] show ?thesis by (simp add: run_poller_def)
qed

lemma poller_zip:
  "map snd (zip (poller_files cfg tmp_dir uid) (poller_args cfg)) = poller_args cfg"
  "map fst (zip (poller_files cfg tmp_dir uid) (poller_args cfg)) = poller_files cfg tmp_dir uid"
  by (simp_all add: poller_files_def poller_args_def)

text \<open>
  C3, on the polling loop as the spec describes it and the markers and arguments that
  \<open>_run_poller\<close> hands to it. Whatever the directory shows at the successive scans, no
  callback argument is delivered twice and each is \<open>[i]\<close> for a member id \<open>i\<close> below the
  population size, whose marker was present at some scan. Conversely every member whose
  marker was present at some scan, the first scan included, has been called back exactly
  once. Delivered and outstanding arguments together are always exactly the expected ones,
  so a session with nothing outstanding has called back exactly once per member, and a
  scan that finds all markers present completes the session. The markers of distinct
  members are distinct paths, so the marker of one member never stands for another.
\<close>

theorem poller_calls_each_marker_once:
  "distinct (snd (run_poller cfg tmp_dir uid obs))
   \<and> set (snd (run_poller cfg tmp_dir uid obs)) \<subseteq> (\<lambda>i. [i]) ` {0..<population_size cfg}
   \<and> mset (snd (run_poller cfg tmp_dir uid obs))
       + mset (map snd (fst (run_poller cfg tmp_dir uid obs)))
      = mset (map (\<lambda>i. [i]) [0..<population_size cfg])
   \<and> (fst (run_poller cfg tmp_dir uid obs) = [] \<longrightarrow>
        mset (snd (run_poller cfg tmp_dir uid obs)) = mset (map (\<lambda>i. [i]) [0..<population_size cfg]))
   \<and> ((\<exists>present \<in> set obs. set (poller_files cfg tmp_dir uid) \<subseteq> present) \<longrightarrow>
        fst (run_poller cfg tmp_dir uid obs) = [])
   \<and> (\<forall>i. [i] \<in> set (snd (run_poller cfg tmp_dir uid obs)) \<longrightarrow>
        i < population_size cfg \<and> (\<exists>present \<in> set obs. readyfile_of tmp_dir uid i \<in> present))
   \<and> (\<forall>i. i < population_size cfg \<and> (\<exists>present \<in> set obs. readyfile_of tmp_dir uid i \<in> present) \<longrightarrow>
        count_list (snd (run_poller cfg tmp_dir uid obs)) [i] = 1)
   \<and> (\<forall>i j. readyfile_of tmp_dir uid i = readyfile_of tmp_dir uid j \<longrightarrow> i = j)"
proof -
  let ?out0 = "zip (poller_files cfg tmp_dir uid) (poller_args cfg)"
  let ?r = "run_poller cfg tmp_dir uid obs"
  have split: "mset (map snd (fst ?r)) + mset (snd ?r) = mset (poller_args cfg)"
    using watch_split [of obs ?out0 "[]"] by (simp add: run_poller_def poller_zip)
  then have "mset (snd ?r @ map snd (fst ?r)) = mset (poller_args cfg)"
    by (simp add: ac_simps)
  then have "distinct (snd ?r @ map snd (fst ?r))"
    using poller_args_distinct [of cfg] by (metis mset_eq_imp_distinct_iff)
  then have d: "distinct (snd ?r)" by simp
  have sub: "set (snd ?r) \<subseteq> set (poller_args cfg)"
    using split by (metis mset_subset_eq_add_right set_mset_mono set_mset_mset)
  have s: "set (snd ?r) \<subseteq> (\<lambda>i. [i]) ` {0..<population_size cfg}"
    using sub by (auto simp: poller_args_def argument_list_def)
  have args: "poller_args cfg = map (\<lambda>i. [i]) [0..<population_size cfg]"
    by (simp add: poller_args_def argument_list_def)
  have finished: "fst ?r = [] \<longrightarrow> mset (snd ?r) = mset (map (\<lambda>i. [i]) [0..<population_size cfg])"
    using split args by auto
  have complete: "(\<exists>present \<in> set obs. set (poller_files cfg tmp_dir uid) \<subseteq> present) \<longrightarrow> fst ?r = []"
  proof
    assume "\<exists>present \<in> set obs. set (poller_files cfg tmp_dir uid) \<subseteq> present"
    moreover have "fst ` set ?out0 \<subseteq> set (poller_files cfg tmp_dir uid)"
      by (auto dest: set_zip_leftD)
    ultimately have "\<exists>present \<in> set obs. fst ` set ?out0 \<subseteq> present" by blast
    then show "fst ?r = []" unfolding run_poller_def by (rule watch_completes)
  qed
  have observed: "\<forall>i. [i] \<in> set (snd ?r) \<longrightarrow>
        i < population_size cfg \<and> (\<exists>present \<in> set obs. readyfile_of tmp_dir uid i \<in> present)"
  proof (intro allI impI)
    fix i assume i: "[i] \<in> set (snd ?r)"
    with s have lt: "i < population_size cfg" by auto
    from watch_calls_observed [of "[i]" obs ?out0 "[]"] i
    obtain present f where pf: "present \<in> set obs" "(f, [i]) \<in> set ?out0" "f \<in> present"
      by (auto simp: run_poller_def)
    from pf(2) have "f = readyfile_of tmp_dir uid i"
      by (auto simp: poller_files_def poller_args_def zip_map_map set_zip)
    with pf lt show "i < population_size cfg \<and> (\<exists>present \<in> set obs. readyfile_of tmp_dir uid i \<in> present)"
      by blast
  qed
  have delivered: "\<forall>i. i < population_size cfg
        \<and> (\<exists>present \<in> set obs. readyfile_of tmp_dir uid i \<in> present) \<longrightarrow>
        count_list (snd ?r) [i] = 1"
    using poller_delivers_observed [of _ cfg _ obs tmp_dir uid] distinct_count_one [OF d] by blast
  have inj: "\<forall>i j. readyfile_of tmp_dir uid i = readyfile_of tmp_dir uid j \<longrightarrow> i = j"
    using readyfile_of_inj by blast
  from d s split args finished complete observed delivered inj show ?thesis
    by (simp add: ac_simps)
qed


theorem poller_calls_each_marker_once_witness:
  "fst (run_poller scenario_cfg ''tmp'' ''step''
          [{readyfile_of ''tmp'' ''step'' 2, readyfile_of ''tmp'' ''step'' 0},
           set (poller_files scenario_cfg ''tmp'' ''step'')]) = []
   \<and> mset (snd (run_poller scenario_cfg ''tmp'' ''step''
          [{readyfile_of ''tmp'' ''step'' 2, readyfile_of ''tmp'' ''step'' 0},
           set (poller_files scenario_cfg ''tmp'' ''step'')]))
      = mset [[0], [1], [2], [3]]
   \<and> count_list (snd (run_poller scenario_cfg ''tmp'' ''step''
          [{readyfile_of ''tmp'' ''step'' 0, readyfile_of ''tmp'' ''step'' 2},
           {readyfile_of ''tmp'' ''step'' 0, readyfile_of ''tmp'' ''step'' 2}])) [0] = 1
   \<and> count_list (snd (run_poller scenario_cfg ''tmp'' ''step''
          [{readyfile_of ''tmp'' ''step'' 0, readyfile_of ''tmp'' ''step'' 2},
           {readyfile_of ''tmp'' ''step'' 0, readyfile_of ''tmp'' ''step'' 2}])) [2] = 1
   \<and> [1] \<notin> set (snd (run_poller scenario_cfg ''tmp'' ''step''
          [{readyfile_of ''tmp'' ''step'' 0, readyfile_of ''tmp'' ''step'' 2},
           {readyfile_of ''tmp'' ''step'' 0, readyfile_of ''tmp'' ''step'' 2}]))"
proof -
  let ?obs = "[{readyfile_of ''tmp'' ''step'' 2, readyfile_of ''tmp'' ''step'' 0},
               set (poller_files scenario_cfg ''tmp'' ''step'')]"
  let ?part = "[{readyfile_of ''tmp'' ''step'' 0, readyfile_of ''tmp'' ''step'' 2},
                {readyfile_of ''tmp'' ''step'' 0, readyfile_of ''tmp'' ''step'' 2}]"
  have "\<exists>present \<in> set ?obs. set (poller_files scenario_cfg ''tmp'' ''step'') \<subseteq> present"
    by simp
  with poller_calls_each_marker_once [of scenario_cfg "''tmp''" "''step''" ?obs]
  have "fst (run_poller scenario_cfg ''tmp'' ''step'' ?obs) = []"
    "mset (snd (run_poller scenario_cfg ''tmp'' ''step'' ?obs))
       = mset (map (\<lambda>i. [i]) [0..<population_size scenario_cfg])"
    by blast+
  moreover have "[0..<population_size scenario_cfg] = [0, 1, 2, 3]"
    unfolding scenario_cfg_def by code_simp
  ultimately have whole: "fst (run_poller scenario_cfg ''tmp'' ''step'' ?obs) = []"
    "mset (snd (run_poller scenario_cfg ''tmp'' ''step'' ?obs)) = mset [[0], [1], [2], [3]]"
    by simp_all
  note P = poller_calls_each_marker_once [of scenario_cfg "''tmp''" "''step''" ?part]
  have seen0: "0 < population_size scenario_cfg
      \<and> (\<exists>present \<in> set ?part. readyfile_of ''tmp'' ''step'' 0 \<in> present)"
    and seen2: "2 < population_size scenario_cfg
      \<and> (\<exists>present \<in> set ?part. readyfile_of ''tmp'' ''step'' 2 \<in> present)"
    by (simp_all add: scenario_cfg_def)
  from P seen0 have c0: "count_list (snd (run_poller scenario_cfg ''tmp'' ''step'' ?part)) [0] = 1"
    by blast
  from P seen2 have c2: "count_list (snd (run_poller scenario_cfg ''tmp'' ''step'' ?part)) [2] = 1"
    by blast
  from P have inj: "\<And>i j. readyfile_of ''tmp'' ''step'' i = readyfile_of ''tmp'' ''step'' j \<Longrightarrow> i = j"
    by blast
  have unseen: "\<not> (\<exists>present \<in> set ?part. readyfile_of ''tmp'' ''step'' 1 \<in> present)"
    using inj [of 1 0] inj [of 1 2] by auto
  from P have "[1] \<in> set (snd (run_poller scenario_cfg ''tmp'' ''step'' ?part)) \<longrightarrow>
      (\<exists>present \<in> set ?part. readyfile_of ''tmp'' ''step'' 1 \<in> present)"
    by blast
  with unseen have c1: "[1] \<notin> set (snd (run_poller scenario_cfg ''tmp'' ''step'' ?part))" by blast
  from whole c0 c2 c1 show ?thesis by blast
qed

lemma reduce_raise_keeps_stores:
  assumes "reduce cfg keep iname h5repack w = Raised e w'"
  shows "stores w' (structure_output cfg) = stores w (structure_output cfg)
         \<and> stores w' (structure_output cfg @ ''.T'') = stores w (structure_output cfg @ ''.T'')
         \<and> (\<forall>p. p \<noteq> structure_output cfg @ ''.T.swap'' \<longrightarrow> stores w' p = stores w p)"
  using assms
  by (auto simp: reduce_def Let_def split: option.splits if_splits)

text \<open>
  C8. If the repacking subprocess exits with a code other than 0, \<open>reduce\<close> raises
  RuntimeError, and neither the store it repacks (\<open>structure_output + '.T'\<close>) nor the
  output file it would replace (\<open>structure_output\<close>) has changed. The same holds for
  every raise of \<open>reduce\<close>. \<open>reduce\<close> runs to its end only after exit code 0, and then
  the file the subprocess wrote stands at \<open>structure_output\<close>.
\<close>

theorem reduce_replaces_only_after_success:
  "(stores w (structure_output cfg @ ''.T'') = Some h \<and> nstruct h \<noteq> 0
      \<and> fst (h5repack (repack_cmd (structure_output cfg @ ''.T'') h)
                (w\<lparr>runtime_violation_score := log_stats h\<rparr>)) \<noteq> 0 \<longrightarrow>
      (\<exists>w'. reduce cfg keep iname h5repack w = Raised RuntimeError w'
         \<and> stores w' (structure_output cfg) = stores w (structure_output cfg)
         \<and> stores w' (structure_output cfg @ ''.T'') = stores w (structure_output cfg @ ''.T'')))
   \<and> (\<forall>e w'. reduce cfg keep iname h5repack w = Raised e w' \<longrightarrow>
         stores w' (structure_output cfg) = stores w (structure_output cfg)
         \<and> stores w' (structure_output cfg @ ''.T'') = stores w (structure_output cfg @ ''.T''))
   \<and> (\<forall>w'. reduce cfg keep iname h5repack w = Done w' \<longrightarrow>
         (\<exists>h. stores w (structure_output cfg @ ''.T'') = Some h
            \<and> fst (h5repack (repack_cmd (structure_output cfg @ ''.T'') h)
                      (w\<lparr>runtime_violation_score := log_stats h\<rparr>)) = 0))
   \<and> (stores w (structure_output cfg @ ''.T'') = Some h \<and> nstruct h \<noteq> 0
        \<and> h5repack (repack_cmd (structure_output cfg @ ''.T'') h)
             (w\<lparr>runtime_violation_score := log_stats h\<rparr>) = (0, Some packed) \<longrightarrow>
        (\<exists>w'. reduce cfg keep iname h5repack w = Done w'
           \<and> stores w' (structure_output cfg) = Some packed))"
proof (intro conjI impI allI)
  assume a: "stores w (structure_output cfg @ ''.T'') = Some h \<and> nstruct h \<noteq> 0
      \<and> fst (h5repack (repack_cmd (structure_output cfg @ ''.T'') h)
                (w\<lparr>runtime_violation_score := log_stats h\<rparr>)) \<noteq> 0"
  then obtain w' where r: "reduce cfg keep iname h5repack w = Raised RuntimeError w'"
    by (auto simp: reduce_def Let_def)
  with reduce_raise_keeps_stores [OF r]
  show "\<exists>w'. reduce cfg keep iname h5repack w = Raised RuntimeError w'
         \<and> stores w' (structure_output cfg) = stores w (structure_output cfg)
         \<and> stores w' (structure_output cfg @ ''.T'') = stores w (structure_output cfg @ ''.T'')"
    by blast
next
  fix e w' assume r: "reduce cfg keep iname h5repack w = Raised e w'"
  from reduce_raise_keeps_stores [OF r]
  show "stores w' (structure_output cfg) = stores w (structure_output cfg)"
    and "stores w' (structure_output cfg @ ''.T'') = stores w (structure_output cfg @ ''.T'')"
    by blast+
next
  fix w' assume "reduce cfg keep iname h5repack w = Done w'"
  then show "\<exists>h. stores w (structure_output cfg @ ''.T'') = Some h
            \<and> fst (h5repack (repack_cmd (structure_output cfg @ ''.T'') h)
                      (w\<lparr>runtime_violation_score := log_stats h\<rparr>)) = 0"
    by (auto simp: reduce_def Let_def split: option.splits if_splits)
next
  assume "stores w (structure_output cfg @ ''.T'') = Some h \<and> nstruct h \<noteq> 0
        \<and> h5repack (repack_cmd (structure_output cfg @ ''.T'') h)
             (w\<lparr>runtime_violation_score := log_stats h\<rparr>) = (0, Some packed)"
  then show "\<exists>w'. reduce cfg keep iname h5repack w = Done w'
           \<and> stores w' (structure_output cfg) = Some packed"
    by (simp add: reduce_def Let_def)
qed

theorem reduce_replaces_only_after_success_witness:
  "(\<exists>w'. reduce scenario_cfg False ''igm.hss.step'' failing_repack repack_world = Raised RuntimeError w'
      \<and> stores w' ''igm.hss'' = stores repack_world ''igm.hss''
      \<and> stores w' ''igm.hss.T'' = stores repack_world ''igm.hss.T'')
   \<and> (\<exists>w'. reduce scenario_cfg False ''igm.hss.step'' working_repack repack_world = Done w'
         \<and> stores w' ''igm.hss'' = stores repack_world ''igm.hss.T'')"
proof -
  let ?h = "\<lparr>nstruct = 4, nbead = 2, struct_crd = replicate 4 [Fin 1], violation = 1 / 20,
             summary_dataset = Some (summary_data example_poller)\<rparr>"
  have pre: "stores repack_world (structure_output scenario_cfg @ ''.T'') = Some ?h \<and> nstruct ?h \<noteq> 0
      \<and> fst (failing_repack (repack_cmd (structure_output scenario_cfg @ ''.T'') ?h)
                (repack_world\<lparr>runtime_violation_score := log_stats ?h\<rparr>)) \<noteq> 0"
    by (simp add: repack_world_def scenario_cfg_def failing_repack_def)
  from reduce_replaces_only_after_success
         [of repack_world scenario_cfg ?h failing_repack False "''igm.hss.step''"] pre
  have 1: "\<exists>w'. reduce scenario_cfg False ''igm.hss.step'' failing_repack repack_world = Raised RuntimeError w'
      \<and> stores w' ''igm.hss'' = stores repack_world ''igm.hss''
      \<and> stores w' ''igm.hss.T'' = stores repack_world ''igm.hss.T''"
    by (simp add: scenario_cfg_def)
  have ok: "stores repack_world (structure_output scenario_cfg @ ''.T'') = Some ?h \<and> nstruct ?h \<noteq> 0
      \<and> working_repack (repack_cmd (structure_output scenario_cfg @ ''.T'') ?h)
                (repack_world\<lparr>runtime_violation_score := log_stats ?h\<rparr>) = (0, Some ?h)"
    by (simp add: repack_world_def scenario_cfg_def working_repack_def repack_cmd_def)
  from reduce_replaces_only_after_success
         [of repack_world scenario_cfg ?h working_repack False "''igm.hss.step''" ?h] ok
  have 2: "\<exists>w'. reduce scenario_cfg False ''igm.hss.step'' working_repack repack_world = Done w'
         \<and> stores w' ''igm.hss'' = stores repack_world ''igm.hss.T''"
    by (simp add: scenario_cfg_def repack_world_def)
  from 1 2 show ?thesis by blast
qed

end
